theory Spec2Isabelle
  imports Complex_Main "HOL-Library.Log_Nat" "HOL-Library.Sublist" "HOL-Library.Char_ord"
begin

text \<open>
  A shallow embedding of the workflow cost estimator of actions-cost-guard
  (\<^verbatim>\<open>estimator.ts\<close>: \<^verbatim>\<open>sanitizeEstimateInput\<close>, \<^verbatim>\<open>parseJobsAndSteps\<close>, \<^verbatim>\<open>aggregateByOs\<close>,
  \<^verbatim>\<open>estimateWorkflowCost\<close>), and the proofs of the properties that its specification
  states. Each function of the source is a definition of the same name; the strings,
  the regular expressions and the numbers of JavaScript that the functions use are
  modelled first.
\<close>

section \<open>Strings and regular expressions of the estimator\<close>

text \<open>
  The estimator works on JavaScript strings. A string is modelled as a \<^typ>\<open>string\<close>, each
  \<^typ>\<open>char\<close> standing for one UTF-16 code unit below 256 (the Latin-1 range), so
  \<^const>\<open>length\<close> is JavaScript's \<^verbatim>\<open>.length\<close> on such text.
\<close>

text \<open>The class \<^verbatim>\<open>\s\<close> of a regular expression, which is also what \<^verbatim>\<open>trim()\<close> removes:
  tab, line feed, vertical tab, form feed, carriage return, space, no-break space.\<close>

definition is_space :: "char \<Rightarrow> bool" where
  "is_space c = (c \<in> set [CHR 0x09, CHR 0x0A, CHR 0x0B, CHR 0x0C, CHR 0x0D, CHR 0x20, CHR 0xA0])"

text \<open>The characters that \<^verbatim>\<open>.\<close> does not match.\<close>

definition is_line_terminator :: "char \<Rightarrow> bool" where
  "is_line_terminator c = (c = CHR 0x0A \<or> c = CHR 0x0D)"

definition any_char :: "char \<Rightarrow> bool" where
  "any_char c = (\<not> is_line_terminator c)"

definition is_upper :: "char \<Rightarrow> bool" where
  "is_upper c = (CHR ''A'' \<le> c \<and> c \<le> CHR ''Z'')"

definition is_lower :: "char \<Rightarrow> bool" where
  "is_lower c = (CHR ''a'' \<le> c \<and> c \<le> CHR ''z'')"

definition is_digit :: "char \<Rightarrow> bool" where
  "is_digit c = (CHR ''0'' \<le> c \<and> c \<le> CHR ''9'')"

text \<open>The class \<^verbatim>\<open>[a-zA-Z0-9_-]\<close>.\<close>

definition is_ident :: "char \<Rightarrow> bool" where
  "is_ident c = (is_lower c \<or> is_upper c \<or> is_digit c \<or> c = CHR ''_'' \<or> c = CHR ''-'')"

definition trim :: "string \<Rightarrow> string" where
  "trim s = rev (dropWhile is_space (rev (dropWhile is_space s)))"

text \<open>\<^verbatim>\<open>toLowerCase()\<close> on the Latin-1 range: A-Z and the accented capitals
  U+00C0..U+00DE except the multiplication sign U+00D7.\<close>

definition lower_char :: "char \<Rightarrow> char" where
  "lower_char c =
     (if is_upper c \<or> (CHR 0xC0 \<le> c \<and> c \<le> CHR 0xDE \<and> c \<noteq> CHR 0xD7)
      then char_of (of_char c + (32::nat)) else c)"

definition toLowerCase :: "string \<Rightarrow> string" where
  "toLowerCase s = map lower_char s"

text \<open>\<^verbatim>\<open>s.includes(sub)\<close>.\<close>

fun str_includes :: "string \<Rightarrow> string \<Rightarrow> bool" where
  "str_includes [] sub = (sub = [])"
| "str_includes (c # cs) sub = (prefix sub (c # cs) \<or> str_includes cs sub)"

text \<open>\<^verbatim>\<open>text.split(/\r?\n/)\<close>: the text is cut at every line feed, and a carriage return
  right before the line feed belongs to the separator. \<open>cur\<close> is the current line, reversed.\<close>

fun split_acc :: "string \<Rightarrow> string \<Rightarrow> string list" where
  "split_acc cur [] = [rev cur]"
| "split_acc cur (c # cs) =
     (if c = CHR 0x0A then
        (case cur of
           d # ds \<Rightarrow> if d = CHR 0x0D then rev ds # split_acc [] cs else rev cur # split_acc [] cs
         | [] \<Rightarrow> [] # split_acc [] cs)
      else split_acc (c # cur) cs)"

definition split_lines :: "string \<Rightarrow> string list" where
  "split_lines s = split_acc [] s"

subsection \<open>Regular expressions: sequences of quantified character classes\<close>

text \<open>
  Every regular expression of the estimator is anchored at the start (\<^verbatim>\<open>^\<close>) and is a
  sequence of character classes, each with a quantifier: a literal character is a class
  taken once, \<^verbatim>\<open>\s{2}\<close> the class \<^verbatim>\<open>\s\<close> taken exactly twice, \<^verbatim>\<open>x*\<close> and \<^verbatim>\<open>x+\<close> a class
  taken at least 0 or 1 times. \<open>rx_max = None\<close> is no upper bound.
\<close>

record atom =
  rx_class :: "char \<Rightarrow> bool"
  rx_min :: nat
  rx_max :: "nat option"

definition Lit :: "char \<Rightarrow> atom" where
  "Lit c = \<lparr>rx_class = (\<lambda>d. d = c), rx_min = 1, rx_max = Some 1\<rparr>"

definition Times :: "(char \<Rightarrow> bool) \<Rightarrow> nat \<Rightarrow> atom" where
  "Times p n = \<lparr>rx_class = p, rx_min = n, rx_max = Some n\<rparr>"

definition Star :: "(char \<Rightarrow> bool) \<Rightarrow> atom" where
  "Star p = \<lparr>rx_class = p, rx_min = 0, rx_max = None\<rparr>"

definition Plus :: "(char \<Rightarrow> bool) \<Rightarrow> atom" where
  "Plus p = \<lparr>rx_class = p, rx_min = 1, rx_max = None\<rparr>"

definition Word :: "string \<Rightarrow> atom list" where
  "Word w = map Lit w"

text \<open>
  Matching is the backtracking of a JavaScript engine: a quantifier is greedy, it first
  takes as many characters as the class and its upper bound allow (\<open>n\<close> below), and gives
  them back one at a time while the rest of the expression (the continuation \<open>k\<close>) fails.
  The result is the number of characters taken and the result of the continuation.
\<close>

fun first_fit :: "(string \<Rightarrow> 'a option) \<Rightarrow> string \<Rightarrow> nat \<Rightarrow> nat \<Rightarrow> (nat \<times> 'a) option" where
  "first_fit k s lo 0 = (if lo = 0 then map_option (Pair 0) (k s) else None)"
| "first_fit k s lo (Suc n) =
     (if Suc n < lo then None
      else case k (drop (Suc n) s) of
             Some r \<Rightarrow> Some (Suc n, r)
           | None \<Rightarrow> first_fit k s lo n)"

definition greedy_max :: "atom \<Rightarrow> string \<Rightarrow> nat" where
  "greedy_max a s =
     (let n = length (takeWhile (rx_class a) s)
      in case rx_max a of None \<Rightarrow> n | Some m \<Rightarrow> min m n)"

text \<open>
  \<open>rx_match to_end as s\<close> matches the atoms \<open>as\<close> at the start of \<open>s\<close>; with \<open>to_end\<close>
  (the anchor \<^verbatim>\<open>$\<close>) the match has to use up \<open>s\<close>. It returns the substring each atom
  matched, in the first match that backtracking finds.
\<close>

fun rx_match :: "bool \<Rightarrow> atom list \<Rightarrow> string \<Rightarrow> string list option" where
  "rx_match to_end [] s = (if to_end \<and> s \<noteq> [] then None else Some [])"
| "rx_match to_end (a # as) s =
     (case first_fit (rx_match to_end as) s (rx_min a) (greedy_max a s) of
        None \<Rightarrow> None
      | Some (n, r) \<Rightarrow> Some (take n s # r))"

definition rx_test :: "bool \<Rightarrow> atom list \<Rightarrow> string \<Rightarrow> bool" where
  "rx_test to_end as s = (rx_match to_end as s \<noteq> None)"

text \<open>\<^verbatim>\<open>rawLine.replace(/#.*$/, "")\<close>: the match starts at the first \<^verbatim>\<open>#\<close> from which the
  rest of the line has no line terminator, and is removed.\<close>

fun strip_comment :: "string \<Rightarrow> string" where
  "strip_comment [] = []"
| "strip_comment (c # cs) =
     (if rx_test True [Lit CHR ''#'', Star any_char] (c # cs) then []
      else c # strip_comment cs)"

text \<open>The regular expressions of \<^verbatim>\<open>parseJobsAndSteps\<close>, in the order of the source.\<close>

definition re_jobs :: "atom list" where \<comment> \<open>\<^verbatim>\<open>/^jobs\s*:/\<close>\<close>
  "re_jobs = Word ''jobs'' @ [Star is_space, Lit CHR '':'']"

definition re_job_header :: "atom list" where \<comment> \<open>\<^verbatim>\<open>/^\s{2}[a-zA-Z0-9_-]+\s*:\s*$/\<close>\<close>
  "re_job_header = [Times is_space 2, Plus is_ident, Star is_space, Lit CHR '':'', Star is_space]"

definition re_runs_on :: "atom list" where \<comment> \<open>\<^verbatim>\<open>/^\s{4}runs-on\s*:\s*(.+)\s*$/\<close>\<close>
  "re_runs_on = [Times is_space 4] @ Word ''runs-on''
     @ [Star is_space, Lit CHR '':'', Star is_space, Plus any_char, Star is_space]"

definition re_uses :: "atom list" where \<comment> \<open>\<^verbatim>\<open>/^\s{6}-\s+uses\s*:/\<close>\<close>
  "re_uses = [Times is_space 6, Lit CHR ''-'', Plus is_space] @ Word ''uses''
     @ [Star is_space, Lit CHR '':'']"

definition re_run :: "atom list" where \<comment> \<open>\<^verbatim>\<open>/^\s{6}-\s+run\s*:/\<close>\<close>
  "re_run = [Times is_space 6, Lit CHR ''-'', Plus is_space] @ Word ''run''
     @ [Star is_space, Lit CHR '':'']"

definition isJobHeader :: "string \<Rightarrow> bool" where
  "isJobHeader line = rx_test True re_job_header line"

text \<open>\<^verbatim>\<open>runsOnMatch[1]\<close>: the group \<^verbatim>\<open>(.+)\<close> is the atom number 11 of \<open>re_runs_on\<close>.\<close>

definition runsOnMatch :: "string \<Rightarrow> string option" where
  "runsOnMatch line = map_option (\<lambda>parts. parts ! 11) (rx_match True re_runs_on line)"


section \<open>Numbers: IEEE 754 binary64\<close>

text \<open>
  A JavaScript number is a double. A finite double is modelled by its exact value, a
  rational (the two zeros are one value \<open>Fin 0\<close>: the estimator never divides by zero and
  never prints a sign of zero); the other doubles are the two infinities and NaN. Every
  operation computes the exact result and rounds it once, to the nearest double, ties to
  the even significand, as IEEE 754 prescribes.
\<close>

datatype double = Fin rat | PInf | NInf | NaN

text \<open>For \<open>0 < q\<close>, the exponent \<open>e\<close> with \<open>2 powi e \<le> q < 2 powi (e + 1)\<close>.\<close>

definition floor_log2 :: "rat \<Rightarrow> int" where
  "floor_log2 q = (if 1 \<le> q then bitlen \<lfloor>q\<rfloor> - 1 else - bitlen (\<lceil>1 / q\<rceil> - 1))"

definition round_half_even :: "rat \<Rightarrow> int" where
  "round_half_even x =
     (let f = \<lfloor>x\<rfloor>; r = x - of_int f
      in if r < 1 / 2 then f else if 1 / 2 < r then f + 1 else if even f then f else f + 1)"

text \<open>
  The doubles around \<open>q\<close> are the multiples of \<open>2 powi e\<close>, where \<open>e\<close> is the exponent of
  \<open>q\<close> less the 52 fraction bits, and at least -1074 (the subnormal numbers). A result of
  magnitude \<open>2 powi 1024\<close> or more overflows to an infinity.
\<close>

definition ulp_exp :: "rat \<Rightarrow> int" where
  "ulp_exp q = max (floor_log2 \<bar>q\<bar> - 52) (- 1074)"

definition round_to_ulp :: "rat \<Rightarrow> rat" where
  "round_to_ulp q =
     (if q = 0 then 0
      else of_int (round_half_even (q / 2 powi ulp_exp q)) * 2 powi ulp_exp q)"

definition rnd :: "rat \<Rightarrow> double" where
  "rnd q =
     (let r = round_to_ulp q
      in if 2 powi 1024 \<le> r then PInf
         else if r \<le> - (2 powi 1024) then NInf
         else Fin r)"

text \<open>A decimal literal of the source denotes the double nearest to it.\<close>

definition Num :: "rat \<Rightarrow> double" where
  "Num q = rnd q"

fun fadd :: "double \<Rightarrow> double \<Rightarrow> double" where
  "fadd (Fin a) (Fin b) = rnd (a + b)"
| "fadd NaN y = NaN"
| "fadd x NaN = NaN"
| "fadd PInf NInf = NaN"
| "fadd NInf PInf = NaN"
| "fadd PInf y = PInf"
| "fadd NInf y = NInf"
| "fadd (Fin a) y = y"

text \<open>The product of an infinity and a number takes the sign of the number; with zero it
  is NaN.\<close>

definition inf_times :: "bool \<Rightarrow> rat \<Rightarrow> double" where
  "inf_times positive b =
     (if b = 0 then NaN else if (0 < b) = positive then PInf else NInf)"

fun fmul :: "double \<Rightarrow> double \<Rightarrow> double" where
  "fmul (Fin a) (Fin b) = rnd (a * b)"
| "fmul NaN y = NaN"
| "fmul x NaN = NaN"
| "fmul PInf (Fin b) = inf_times True b"
| "fmul NInf (Fin b) = inf_times False b"
| "fmul (Fin a) PInf = inf_times True a"
| "fmul (Fin a) NInf = inf_times False a"
| "fmul PInf PInf = PInf"
| "fmul NInf NInf = PInf"
| "fmul PInf NInf = NInf"
| "fmul NInf PInf = NInf"

text \<open>Division; a zero divisor is taken as the positive zero (the estimator divides by
  100 only).\<close>

fun fdiv :: "double \<Rightarrow> double \<Rightarrow> double" where
  "fdiv (Fin a) (Fin b) = (if b = 0 then inf_times True a else rnd (a / b))"
| "fdiv NaN y = NaN"
| "fdiv x NaN = NaN"
| "fdiv PInf (Fin b) = (if 0 \<le> b then PInf else NInf)"
| "fdiv NInf (Fin b) = (if 0 \<le> b then NInf else PInf)"
| "fdiv (Fin a) y = Fin 0"
| "fdiv x y = NaN"

text \<open>\<^verbatim>\<open>Math.round\<close>: the nearest integer, a tie going up. The result is a double, since
  a double of magnitude \<open>2 ^ 52\<close> or more is an integer.\<close>

fun Math_round :: "double \<Rightarrow> double" where
  "Math_round (Fin a) = Fin (of_int \<lfloor>a + 1 / 2\<rfloor>)"
| "Math_round x = x"

text \<open>The comparisons \<^verbatim>\<open><\<close> and \<^verbatim>\<open><=\<close> of JavaScript: false as soon as an operand is NaN.\<close>

fun d_less :: "double \<Rightarrow> double \<Rightarrow> bool" where
  "d_less (Fin a) (Fin b) = (a < b)"
| "d_less NaN y = False"
| "d_less x NaN = False"
| "d_less x NInf = False"
| "d_less PInf y = False"
| "d_less x y = True"

fun d_le :: "double \<Rightarrow> double \<Rightarrow> bool" where
  "d_le (Fin a) (Fin b) = (a \<le> b)"
| "d_le NaN y = False"
| "d_le x NaN = False"
| "d_le NInf y = True"
| "d_le x PInf = True"
| "d_le x y = False"

fun isFinite :: "double \<Rightarrow> bool" where
  "isFinite (Fin a) = True"
| "isFinite x = False"

definition EPSILON :: double where \<comment> \<open>\<^verbatim>\<open>Number.EPSILON\<close>\<close>
  "EPSILON = Fin (2 powi (- 52))"

definition roundMoney :: "double \<Rightarrow> double" where
  "roundMoney v = fdiv (Math_round (fmul (fadd v EPSILON) (Num 100))) (Num 100)"


section \<open>The workflow scanner\<close>

definition parseRunsOn :: "string \<Rightarrow> string" where
  "parseRunsOn raw =
     (let normalized = toLowerCase (trim raw)
      in if str_includes normalized ''windows'' then ''windows''
         else if str_includes normalized ''macos'' \<or> str_includes normalized ''mac'' then ''macos''
         else ''linux'')"

text \<open>A scanned job. \<open>steps\<close> is a count that grows by one for a line of the text, exact in
  a double, so a natural number.\<close>

record job =
  os :: string
  steps :: nat
  minutes :: double

definition STEP_MINUTES_uses :: double where
  "STEP_MINUTES_uses = Num (3 / 2)"

definition STEP_MINUTES_run :: double where
  "STEP_MINUTES_run = Num 3"

text \<open>The variables of the loop of \<^verbatim>\<open>parseJobsAndSteps\<close>.\<close>

record scan =
  jobs :: "job list"
  inJobs :: bool
  currentJob :: "job option"

definition scan_init :: scan where
  "scan_init = \<lparr>jobs = [], inJobs = False, currentJob = None\<rparr>"

definition push_current :: "scan \<Rightarrow> job list" where
  "push_current st = (case currentJob st of Some j \<Rightarrow> jobs st @ [j] | None \<Rightarrow> jobs st)"

text \<open>One turn of the loop; each \<^verbatim>\<open>continue\<close> of the source is a branch that returns.\<close>

definition scan_line :: "scan \<Rightarrow> string \<Rightarrow> scan" where
  "scan_line st rawLine =
     (let line = strip_comment rawLine; trimmed = trim line
      in if \<not> inJobs st \<and> rx_test False re_jobs trimmed then st\<lparr>inJobs := True\<rparr>
         else if \<not> inJobs st \<or> trimmed = [] then st
         else if isJobHeader line then
           st\<lparr>jobs := push_current st,
              currentJob := Some \<lparr>os = ''linux'', steps = 0, minutes = Num 2\<rparr>\<rparr>
         else case currentJob st of
           None \<Rightarrow> st
         | Some cur \<Rightarrow>
             (case runsOnMatch line of
                Some captured \<Rightarrow> st\<lparr>currentJob := Some (cur\<lparr>os := parseRunsOn captured\<rparr>)\<rparr>
              | None \<Rightarrow>
                  if rx_test False re_uses line then
                    st\<lparr>currentJob := Some (cur\<lparr>steps := steps cur + 1,
                                                 minutes := fadd (minutes cur) STEP_MINUTES_uses\<rparr>)\<rparr>
                  else if rx_test False re_run line then
                    st\<lparr>currentJob := Some (cur\<lparr>steps := steps cur + 1,
                                                 minutes := fadd (minutes cur) STEP_MINUTES_run\<rparr>)\<rparr>
                  else st))"

definition scan_lines :: "scan \<Rightarrow> string list \<Rightarrow> scan" where
  "scan_lines st ls = foldl scan_line st ls"

definition fallback_job :: job where
  "fallback_job = \<lparr>os = ''linux'', steps = 3, minutes = Num (17 / 2)\<rparr>"

definition parseJobsAndSteps :: "string \<Rightarrow> job list" where
  "parseJobsAndSteps workflowYaml =
     (let js = push_current (scan_lines scan_init (split_lines workflowYaml))
      in if js = [] then [fallback_job] else js)"

section \<open>The cost aggregator\<close>

record osEstimate =
  e_os :: string
  e_jobs :: nat
  e_stepCount :: nat
  e_minutesPerRun :: double
  e_costPerRunUsd :: double

definition OS_RATE_PER_MINUTE_USD :: "(string \<times> double) list" where
  "OS_RATE_PER_MINUTE_USD =
     [(''linux'', Num (8 / 1000)), (''windows'', Num (16 / 1000)), (''macos'', Num (8 / 100))]"

definition rate_of :: "string \<Rightarrow> double" where
  "rate_of name =
     (case map_of OS_RATE_PER_MINUTE_USD name of Some r \<Rightarrow> r | None \<Rightarrow> Num (8 / 1000))"

text \<open>The \<^verbatim>\<open>Map\<close> of the source keeps its keys in the order of their first insertion: an
  association list, where \<open>map_set\<close> replaces the value of a key in place and puts a new
  key at the end.\<close>

fun map_set :: "string \<Rightarrow> osEstimate \<Rightarrow> (string \<times> osEstimate) list \<Rightarrow> (string \<times> osEstimate) list" where
  "map_set k v [] = [(k, v)]"
| "map_set k v ((k', v') # rest) =
     (if k' = k then (k, v) # rest else (k', v') # map_set k v rest)"

definition add_job :: "(string \<times> osEstimate) list \<Rightarrow> job \<Rightarrow> (string \<times> osEstimate) list" where
  "add_job byOsMap j =
     (let rate = rate_of (os j);
          existing = (case map_of byOsMap (os j) of
                        Some entry \<Rightarrow> entry
                      | None \<Rightarrow> \<lparr>e_os = os j, e_jobs = 0, e_stepCount = 0,
                                 e_minutesPerRun = Num 0, e_costPerRunUsd = Num 0\<rparr>)
      in map_set (os j)
           (existing\<lparr>e_jobs := e_jobs existing + 1,
                     e_stepCount := e_stepCount existing + steps j,
                     e_minutesPerRun := fadd (e_minutesPerRun existing) (minutes j),
                     e_costPerRunUsd := fadd (e_costPerRunUsd existing) (fmul (minutes j) rate)\<rparr>)
           byOsMap)"

definition emit_entry :: "osEstimate \<Rightarrow> osEstimate" where
  "emit_entry entry =
     entry\<lparr>e_minutesPerRun := roundMoney (e_minutesPerRun entry),
           e_costPerRunUsd := roundMoney (e_costPerRunUsd entry)\<rparr>"

definition aggregateByOs :: "job list \<Rightarrow> osEstimate list" where
  "aggregateByOs js = map (emit_entry \<circ> snd) (foldl add_job [] js)"

section \<open>The input sanitizer\<close>

text \<open>A value of the request body, as \<^verbatim>\<open>JSON.parse\<close> gives it; \<open>JUndefined\<close> is a missing
  key. An object is the list of its own properties. An array is kept as the outcome of
  \<^verbatim>\<open>String(value)\<close>, which is all the sanitizer reads of it: the strings of its elements
  joined by commas, or nothing when an element has no string.\<close>

datatype jsval =
  JUndefined | JNull | JBool bool | JNumber double | JString string
| JArray "string option" | JObject "(string \<times> jsval) list"

text \<open>What the sanitizer throws: an \<^verbatim>\<open>Error\<close> with a message, by a \<^verbatim>\<open>throw\<close> of its own, or
  the \<^verbatim>\<open>TypeError\<close> of a conversion.\<close>

datatype error = Error string | TypeError

record payload =
  p_workflowYaml :: jsval
  p_monthlyRuns :: jsval
  p_budgetUsd :: jsval
  p_policyMode :: jsval

record estimateInput =
  workflowYaml :: string
  monthlyRuns :: double
  budgetUsd :: double
  policyMode :: string


subsection \<open>\<^verbatim>\<open>Number.parseFloat\<close>\<close>

definition digits_val :: "string \<Rightarrow> nat" where
  "digits_val ds = foldl (\<lambda>n c. 10 * n + (of_char c - 48)) 0 ds"

text \<open>A signed integer at the start of \<open>s\<close>; 0 when there is no digit.\<close>

definition signed_digits :: "string \<Rightarrow> int" where
  "signed_digits s =
     (case s of
        [] \<Rightarrow> 0
      | c # r \<Rightarrow>
          if c = CHR ''-'' then - int (digits_val (takeWhile is_digit r))
          else if c = CHR ''+'' then int (digits_val (takeWhile is_digit r))
          else int (digits_val (takeWhile is_digit s)))"

text \<open>The exponent part at the start of \<open>s\<close>: \<^verbatim>\<open>e\<close> or \<^verbatim>\<open>E\<close>, then a signed integer. Where
  no digit follows, there is no exponent part, and the exponent is 0.\<close>

definition exponent_part :: "string \<Rightarrow> int" where
  "exponent_part s =
     (case s of
        [] \<Rightarrow> 0
      | c # r \<Rightarrow> if c = CHR ''e'' \<or> c = CHR ''E'' then signed_digits r else 0)"

text \<open>The longest prefix of \<open>s\<close> that is an unsigned decimal literal (\<^verbatim>\<open>Infinity\<close>, or
  digits with an optional fraction and exponent, at least one digit in all), read as a
  decimal number and rounded to a double; NaN when there is no such prefix.\<close>

definition parse_unsigned :: "bool \<Rightarrow> string \<Rightarrow> double" where
  "parse_unsigned negative s =
     (if prefix ''Infinity'' s then (if negative then NInf else PInf)
      else
        let ip = takeWhile is_digit s;
            r1 = dropWhile is_digit s;
            has_dot = (r1 \<noteq> [] \<and> hd r1 = CHR ''.'');
            fp = (if has_dot then takeWhile is_digit (tl r1) else []);
            r2 = (if has_dot then dropWhile is_digit (tl r1) else r1)
        in if ip = [] \<and> fp = [] then NaN
           else
             let v = (of_nat (digits_val ip) + of_nat (digits_val fp) / 10 ^ length fp)
                       * 10 powi exponent_part r2
             in rnd (if negative then - v else v))"

definition parseFloat :: "string \<Rightarrow> double" where
  "parseFloat s =
     (let t = dropWhile is_space s
      in case t of
           [] \<Rightarrow> NaN
         | c # r \<Rightarrow>
             if c = CHR ''-'' then parse_unsigned True r
             else if c = CHR ''+'' then parse_unsigned False r
             else parse_unsigned False t)"

text \<open>\<^verbatim>\<open>String(value)\<close> for an object. No property of an object of \<^verbatim>\<open>JSON.parse\<close> is a
  function: an own property \<^verbatim>\<open>toString\<close> hides \<^verbatim>\<open>Object.prototype.toString\<close> and leaves
  \<^verbatim>\<open>valueOf\<close>, which is no function either or returns the object itself, so that the
  conversion throws a \<^verbatim>\<open>TypeError\<close>. Without it \<^verbatim>\<open>Object.prototype.toString\<close> answers.\<close>

definition object_string :: "(string \<times> jsval) list \<Rightarrow> error + string" where
  "object_string props =
     (if ''toString'' \<in> set (map fst props) then Inl TypeError else Inr ''[object Object]'')"

text \<open>\<^verbatim>\<open>typeof raw === "number" ? raw : Number.parseFloat(String(raw))\<close>\<close>

fun number_of :: "jsval \<Rightarrow> error + double" where
  "number_of (JNumber d) = Inr d"
| "number_of (JString s) = Inr (parseFloat s)"
| "number_of JUndefined = Inr (parseFloat ''undefined'')"
| "number_of JNull = Inr (parseFloat ''null'')"
| "number_of (JBool b) = Inr (parseFloat (if b then ''true'' else ''false''))"
| "number_of (JArray None) = Inl TypeError"
| "number_of (JArray (Some s)) = Inr (parseFloat s)"
| "number_of (JObject props) =
     (case object_string props of Inl e \<Rightarrow> Inl e | Inr s \<Rightarrow> Inr (parseFloat s))"

text \<open>\<^verbatim>\<open>typeof raw === "string" ? raw.trim() : ""\<close>\<close>

fun trimmed_string_of :: "jsval \<Rightarrow> string" where
  "trimmed_string_of (JString s) = trim s"
| "trimmed_string_of v = []"

text \<open>The result of the sanitizer is the input, or what it throws.\<close>

definition sanitizeEstimateInput :: "payload \<Rightarrow> error + estimateInput" where
  "sanitizeEstimateInput p =
     (let wf = trimmed_string_of (p_workflowYaml p)
      in if wf = [] \<or> 100000 < length wf then Inl (Error ''invalid_workflow_yaml'')
      else
        (case number_of (p_monthlyRuns p) of
          Inl e \<Rightarrow> Inl e
        | Inr runs \<Rightarrow>
            if \<not> isFinite runs \<or> d_le runs (Num 0) \<or> d_less (Num 1000000) runs
            then Inl (Error ''invalid_monthly_runs'')
            else
              (case number_of (p_budgetUsd p) of
                Inl e \<Rightarrow> Inl e
              | Inr budget \<Rightarrow>
                  if \<not> isFinite budget \<or> d_le budget (Num 0) \<or> d_less (Num 1000000) budget
                  then Inl (Error ''invalid_budget_usd'')
                  else
                    let modeRaw = toLowerCase (trimmed_string_of (p_policyMode p))
                    in if modeRaw \<noteq> ''warn'' \<and> modeRaw \<noteq> ''block''
                       then Inl (Error ''invalid_policy_mode'')
                       else Inr \<lparr>workflowYaml = wf, monthlyRuns = Math_round runs,
                                 budgetUsd = roundMoney budget, policyMode = modeRaw\<rparr>)))"

section \<open>The estimate\<close>

record summary =
  s_jobs :: nat
  s_stepCount :: nat
  s_minutesPerRun :: double
  s_costPerRunUsd :: double
  s_monthlyRuns :: double
  s_monthlyCostUsd :: double
  s_budgetUsd :: double
  s_policyMode :: string
  s_policyDecision :: string

record estimateResult =
  summary :: summary
  byOs :: "osEstimate list"
  assumptions :: "string list"

text \<open>The four sums of the loop over \<^verbatim>\<open>byOs\<close>.\<close>

record totals =
  minutesPerRun :: double
  costPerRunUsd :: double
  totalJobs :: nat
  totalSteps :: nat

definition add_entry :: "totals \<Rightarrow> osEstimate \<Rightarrow> totals" where
  "add_entry t osEntry =
     \<lparr>minutesPerRun = fadd (minutesPerRun t) (e_minutesPerRun osEntry),
      costPerRunUsd = fadd (costPerRunUsd t) (e_costPerRunUsd osEntry),
      totalJobs = totalJobs t + e_jobs osEntry,
      totalSteps = totalSteps t + e_stepCount osEntry\<rparr>"

definition sum_entries :: "osEstimate list \<Rightarrow> totals" where
  "sum_entries entries =
     foldl add_entry
       \<lparr>minutesPerRun = Num 0, costPerRunUsd = Num 0, totalJobs = 0, totalSteps = 0\<rparr> entries"

definition estimateWorkflowCost :: "estimateInput \<Rightarrow> estimateResult" where
  "estimateWorkflowCost input =
     (let entries = aggregateByOs (parseJobsAndSteps (workflowYaml input));
          t = sum_entries entries;
          monthlyCostUsd = roundMoney (fmul (costPerRunUsd t) (monthlyRuns input));
          policyDecision = (if d_less (budgetUsd input) monthlyCostUsd then policyMode input
                            else ''pass'')
      in \<lparr>summary =
            \<lparr>s_jobs = totalJobs t,
             s_stepCount = totalSteps t,
             s_minutesPerRun = roundMoney (minutesPerRun t),
             s_costPerRunUsd = roundMoney (costPerRunUsd t),
             s_monthlyRuns = monthlyRuns input,
             s_monthlyCostUsd = monthlyCostUsd,
             s_budgetUsd = budgetUsd input,
             s_policyMode = policyMode input,
             s_policyDecision = policyDecision\<rparr>,
          byOs = entries,
          assumptions =
            [''Default base runtime is 2 minutes per job before step costs.'',
             ''Step runtime assumptions: uses=1.5m, run=3m.'',
             ''Hosted runner rates used: Linux $0.008/min, Windows $0.016/min, macOS $0.08/min.'',
             ''Matrix expansion is not modeled explicitly unless represented as separate jobs in YAML.'']\<rparr>)"

section \<open>Notions of the statements and invariants of the proofs\<close>

text \<open>The language of a regular expression, without backtracking: the text is cut into
  one piece for each atom, each piece within the bounds of its quantifier and made of
  characters of its class.\<close>

fun rx_lang :: "bool \<Rightarrow> atom list \<Rightarrow> string \<Rightarrow> bool" where
  "rx_lang to_end [] s = (if to_end then s = [] else True)"
| "rx_lang to_end (a # as) s =
     (\<exists>n. n \<le> length s \<and> rx_min a \<le> n \<and> (case rx_max a of None \<Rightarrow> True | Some m \<Rightarrow> n \<le> m)
        \<and> list_all (rx_class a) (take n s) \<and> rx_lang to_end as (drop n s))"

text \<open>The job header of the specification, \<^verbatim>\<open>^  [A-Za-z0-9_-]+:\s*$\<close>: two space
  characters, an identifier, a colon.\<close>

definition spec_re_job_header :: "atom list" where
  "spec_re_job_header =
     [Times (\<lambda>c. c = CHR '' '') 2, Plus is_ident, Lit CHR '':'', Star is_space]"

text \<open>A \<^verbatim>\<open>runs-on:\<close> line or a step line, as the scanner tests them.\<close>

definition is_field_line :: "string \<Rightarrow> bool" where
  "is_field_line line =
     (runsOnMatch line \<noteq> None \<or> rx_test False re_uses line \<or> rx_test False re_run line)"

text \<open>The three runners with a billing rate.\<close>

definition known_os :: "string \<Rightarrow> bool" where
  "known_os name = (name = ''linux'' \<or> name = ''windows'' \<or> name = ''macos'')"

text \<open>Every job of the scanner runs on one of them.\<close>

definition scan_known :: "scan \<Rightarrow> bool" where
  "scan_known st =
     (list_all (\<lambda>j. known_os (os j)) (jobs st)
      \<and> (case currentJob st of None \<Rightarrow> True | Some j \<Rightarrow> known_os (os j)))"

text \<open>The map of the aggregator has each key once, and each entry under its runner.\<close>

definition keyed :: "(string \<times> osEstimate) list \<Rightarrow> bool" where
  "keyed m = (distinct (map fst m) \<and> list_all (\<lambda>(k, v). e_os v = k) m)"

text \<open>The number of jobs counted in the map.\<close>

definition jobs_total :: "(string \<times> osEstimate) list \<Rightarrow> nat" where
  "jobs_total m = sum_list (map (e_jobs \<circ> snd) m)"

text \<open>The workflow of Scenario B: one \<^verbatim>\<open>ubuntu-latest\<close> job with two \<^verbatim>\<open>uses\<close> steps and one
  \<^verbatim>\<open>run\<close> step, one \<^verbatim>\<open>windows-latest\<close> job with one \<^verbatim>\<open>uses\<close> step.\<close>

definition scenario_B :: "string list" where
  "scenario_B =
     [''jobs:'',
      ''  build:'',
      ''    runs-on: ubuntu-latest'',
      ''    steps:'',
      ''      - uses: actions/checkout@v4'',
      ''      - uses: actions/setup-node@v4'',
      ''      - run: npm test'',
      ''  windows:'',
      ''    runs-on: windows-latest'',
      ''    steps:'',
      ''      - uses: actions/checkout@v4'']"

definition unlines :: "string list \<Rightarrow> string" where
  "unlines ls = concat (map (\<lambda>l. l @ [CHR 0x0A]) ls)"

definition scenario_B_text :: string where
  "scenario_B_text = unlines scenario_B"

text \<open>Some line after the first \<^verbatim>\<open>jobs:\<close> line is a job header; \<open>seen\<close> tells that the
  \<^verbatim>\<open>jobs:\<close> line is behind.\<close>

fun job_after_marker :: "bool \<Rightarrow> string list \<Rightarrow> bool" where
  "job_after_marker seen [] = False"
| "job_after_marker seen (raw # rest) =
     (if seen then isJobHeader (strip_comment raw) \<or> job_after_marker True rest
      else job_after_marker (rx_test False re_jobs (trim (strip_comment raw))) rest)"

definition recognizable_job :: "string \<Rightarrow> bool" where
  "recognizable_job text = job_after_marker False (split_lines text)"

text \<open>An emitted cost is a whole number of cents, at most 2^17 dollars.\<close>

definition cents_of :: "osEstimate \<Rightarrow> int \<Rightarrow> bool" where
  "cents_of e c = (e_costPerRunUsd e = rnd (of_int c / 100) \<and> 0 \<le> c \<and> c \<le> 13107200)"

text \<open>A workflow text that the sanitizer accepts: a string, not empty once trimmed, of at
  most 100,000 characters.\<close>

definition valid_text :: "jsval \<Rightarrow> bool" where
  "valid_text v =
     (case v of JString s \<Rightarrow> trim s \<noteq> [] \<and> length (trim s) \<le> 100000 | _ \<Rightarrow> False)"

text \<open>A run count or a budget that the sanitizer accepts, given as a number: finite, more
  than 0 and at most 1,000,000.\<close>

definition valid_amount :: "jsval \<Rightarrow> bool" where
  "valid_amount v =
     (case v of JNumber (Fin r) \<Rightarrow> 0 < r \<and> r \<le> 1000000 | _ \<Rightarrow> False)"

text \<open>The workflow text of the tests of the sanitizer.\<close>

definition test_workflow :: string where
  "test_workflow = ''jobs:'' @ [CHR 0x0A] @ ''  a:'' @ [CHR 0x0A] @ ''    runs-on: ubuntu-latest''"

text \<open>The value of a finite double.\<close>

fun val :: "double \<Rightarrow> rat" where
  "val (Fin x) = x"
| "val d = 0"

text \<open>The minutes of a scanned job are a whole number of half minutes.\<close>

definition exact_job :: "job \<Rightarrow> bool" where
  "exact_job j = (\<exists>h :: nat. minutes j = Fin (of_nat h / 2))"

definition minutes_sum :: "job list \<Rightarrow> rat" where
  "minutes_sum js = sum_list (map (val \<circ> minutes) js)"

text \<open>After \<open>n\<close> lines, the jobs of the scanner have exact minutes, at most 3 for a line.\<close>

definition scan_exact :: "scan \<Rightarrow> nat \<Rightarrow> bool" where
  "scan_exact st n =
     (list_all exact_job (push_current st) \<and> minutes_sum (push_current st) \<le> 3 * of_nat n)"

text \<open>An entry of the map of the aggregator, when the jobs so far have \<open>M\<close> minutes in
  all: its minutes are exact, at most \<open>M\<close>, and its cost is at most an eighth of them (no
  rate is above 0.125 a minute).\<close>

definition entry_ok :: "rat \<Rightarrow> osEstimate \<Rightarrow> bool" where
  "entry_ok M v =
     (\<exists>a (h :: nat). e_costPerRunUsd v = Fin a \<and> e_minutesPerRun v = Fin (of_nat h / 2)
        \<and> 0 \<le> a \<and> 8 * a \<le> of_nat h / 2 \<and> of_nat h / 2 \<le> M)"
section \<open>Rounding to a double\<close>

text \<open>
  The facts on \<open>rnd\<close> that the proofs on costs need: it is exact on a double, it is
  monotone, and its error on a number of magnitude at most \<open>2 powi k\<close> is at most
  \<open>2 powi (k - 53)\<close>.
\<close>

subsection \<open>Powers of two and the exponent of a number\<close>

lemma powi_pos [simp]: "0 < (2::rat) powi k"
  by (simp add: power_int_def)

lemma powi_mono: "j \<le> k \<Longrightarrow> (2::rat) powi j \<le> 2 powi k"
  by (rule power_int_increasing) simp_all

lemma powi_strict_mono: "j < k \<Longrightarrow> (2::rat) powi j < 2 powi k"
  by (rule power_int_strict_increasing) simp_all

lemma powi_Suc: "(2::rat) powi (k + 1) = 2 * 2 powi k"
  by (simp add: power_int_add)

lemma powi_of_nat: "0 \<le> k \<Longrightarrow> (2::rat) powi k = 2 ^ nat k"
  by (simp add: power_int_def)

lemma floor_log2_bounds:
  assumes "0 < q"
  shows "2 powi floor_log2 q \<le> q" and "q < 2 powi (floor_log2 q + 1)"
proof -
  show "2 powi floor_log2 q \<le> q"
  proof (cases "1 \<le> q")
    case True
    let ?N = "\<lfloor>q\<rfloor>"
    have N: "0 < ?N" using True by simp
    have b: "1 \<le> bitlen ?N" using N by (simp add: bitlen_alt_def)
    have "(2::int) ^ nat (bitlen ?N - 1) \<le> ?N" using bitlen_bounds [OF N] by simp
    then have "(of_int ((2::int) ^ nat (bitlen ?N - 1)) :: rat) \<le> of_int ?N"
      by (simp only: of_int_le_iff)
    then have "(2::rat) ^ nat (bitlen ?N - 1) \<le> of_int ?N" by simp
    also have "\<dots> \<le> q" by simp
    finally show ?thesis using True b by (simp add: floor_log2_def powi_of_nat)
  next
    case False
    let ?r = "1 / q"
    let ?N = "\<lceil>?r\<rceil>"
    have r1: "1 < ?r" using False assms by simp
    have N: "0 < ?N - 1" using r1 by (simp add: less_ceiling_iff)
    let ?b = "bitlen (?N - 1)"
    have b: "1 \<le> ?b" using N by (simp add: bitlen_alt_def)
    have "?N - 1 < 2 ^ nat ?b" using bitlen_bounds [OF N] by simp
    then have "?N \<le> 2 ^ nat ?b" by simp
    then have "(of_int ?N :: rat) \<le> of_int (2 ^ nat ?b)" by (simp only: of_int_le_iff)
    then have "(of_int ?N :: rat) \<le> 2 ^ nat ?b" by simp
    moreover have "?r \<le> of_int ?N" by simp
    ultimately have "?r \<le> 2 ^ nat ?b" by linarith
    then have "1 \<le> q * 2 ^ nat ?b" using assms by (simp add: field_simps)
    then have "1 / 2 ^ nat ?b \<le> q" by (simp add: field_simps)
    moreover have "(2::rat) powi (- ?b) = 1 / 2 ^ nat ?b"
      using b by (simp add: power_int_def field_simps)
    ultimately show ?thesis using False by (simp add: floor_log2_def)
  qed
  show "q < 2 powi (floor_log2 q + 1)"
  proof (cases "1 \<le> q")
    case True
    let ?N = "\<lfloor>q\<rfloor>"
    have N: "0 < ?N" using True by simp
    have b: "1 \<le> bitlen ?N" using N by (simp add: bitlen_alt_def)
    have "?N < 2 ^ nat (bitlen ?N)" using bitlen_bounds [OF N] by simp
    then have "?N + 1 \<le> 2 ^ nat (bitlen ?N)" by simp
    then have "(of_int (?N + 1) :: rat) \<le> of_int (2 ^ nat (bitlen ?N))"
      by (simp only: of_int_le_iff)
    then have "(of_int ?N :: rat) + 1 \<le> 2 ^ nat (bitlen ?N)" by simp
    moreover have "q < of_int ?N + 1" by linarith
    ultimately have "q < 2 ^ nat (bitlen ?N)" by linarith
    then show ?thesis using True b by (simp add: floor_log2_def powi_of_nat)
  next
    case False
    let ?r = "1 / q"
    let ?N = "\<lceil>?r\<rceil>"
    have r1: "1 < ?r" using False assms by simp
    have N: "0 < ?N - 1" using r1 by (simp add: less_ceiling_iff)
    let ?b = "bitlen (?N - 1)"
    have b: "1 \<le> ?b" using N by (simp add: bitlen_alt_def)
    have "(2::int) ^ nat (?b - 1) \<le> ?N - 1" using bitlen_bounds [OF N] by simp
    then have "(of_int ((2::int) ^ nat (?b - 1)) :: rat) \<le> of_int (?N - 1)"
      by (simp only: of_int_le_iff)
    then have "(2::rat) ^ nat (?b - 1) \<le> of_int ?N - 1" by simp
    moreover have "of_int ?N - 1 < ?r" using ceiling_correct [of ?r] by linarith
    ultimately have "(2::rat) ^ nat (?b - 1) < ?r" by linarith
    then have "q * 2 ^ nat (?b - 1) < 1" using assms by (simp add: field_simps)
    then have "q < 1 / 2 ^ nat (?b - 1)" by (simp add: field_simps)
    moreover have "(2::rat) powi (- ?b + 1) = 1 / 2 ^ nat (?b - 1)"
    proof -
      have "- ?b + 1 = - (?b - 1)" by simp
      moreover have "(2::rat) powi (- (?b - 1)) = 1 / 2 ^ nat (?b - 1)"
        using b by (simp add: power_int_def field_simps)
      ultimately show ?thesis by simp
    qed
    ultimately show ?thesis using False by (simp add: floor_log2_def)
  qed
qed

lemma floor_log2_unique:
  assumes "2 powi k \<le> q" and "q < 2 powi (k + 1)"
  shows "floor_log2 q = k"
proof -
  have q: "0 < q" using assms(1) powi_pos [of k] by linarith
  note b = floor_log2_bounds [OF q]
  have "\<not> floor_log2 q < k"
  proof
    assume "floor_log2 q < k"
    then have "2 powi (floor_log2 q + 1) \<le> (2::rat) powi k" by (intro powi_mono) simp
    then show False using b assms by linarith
  qed
  moreover have "\<not> k < floor_log2 q"
  proof
    assume "k < floor_log2 q"
    then have "2 powi (k + 1) \<le> (2::rat) powi floor_log2 q" by (intro powi_mono) simp
    then show False using b assms by linarith
  qed
  ultimately show ?thesis by simp
qed

lemma floor_log2_mono:
  assumes "0 < q" and "q \<le> q'"
  shows "floor_log2 q \<le> floor_log2 q'"
proof (rule ccontr)
  assume "\<not> floor_log2 q \<le> floor_log2 q'"
  then have "2 powi (floor_log2 q' + 1) \<le> (2::rat) powi floor_log2 q" by (intro powi_mono) simp
  moreover have "0 < q'" using assms by simp
  ultimately show False
    using floor_log2_bounds(1) [OF assms(1)] floor_log2_bounds(2) [of q'] assms(2) by linarith
qed

lemma floor_log2_less:
  assumes "0 < q" and "q < 2 powi k"
  shows "floor_log2 q < k"
proof (rule ccontr)
  assume "\<not> floor_log2 q < k"
  then have "2 powi k \<le> (2::rat) powi floor_log2 q" by (intro powi_mono) simp
  then show False using floor_log2_bounds(1) [OF assms(1)] assms(2) by linarith
qed

subsection \<open>Rounding to an integer, ties to even\<close>

lemma rhe_cases: "round_half_even x = \<lfloor>x\<rfloor> \<or> round_half_even x = \<lfloor>x\<rfloor> + 1"
  by (simp add: round_half_even_def Let_def)

lemma rhe_err: "\<bar>x - of_int (round_half_even x)\<bar> \<le> 1 / 2"
proof -
  have "of_int \<lfloor>x\<rfloor> \<le> x" "x < of_int \<lfloor>x\<rfloor> + 1" by linarith+
  then show ?thesis
    by (auto simp: round_half_even_def Let_def abs_le_iff)
qed

lemma rhe_of_int [simp]: "round_half_even (of_int n) = n"
  by (simp add: round_half_even_def Let_def)

lemma rhe_mono:
  assumes "x \<le> y"
  shows "round_half_even x \<le> round_half_even y"
proof (cases "\<lfloor>x\<rfloor> = \<lfloor>y\<rfloor>")
  case True
  then show ?thesis
    using assms by (auto simp: round_half_even_def Let_def)
next
  case False
  have "\<lfloor>x\<rfloor> \<le> \<lfloor>y\<rfloor>" using assms by (rule floor_mono)
  then have "\<lfloor>x\<rfloor> + 1 \<le> \<lfloor>y\<rfloor>" using False by simp
  then show ?thesis using rhe_cases [of x] rhe_cases [of y] by auto
qed

subsection \<open>Rounding to a multiple of the unit in the last place\<close>

lemma round_to_ulp_0 [simp]: "round_to_ulp 0 = 0"
  by (simp add: round_to_ulp_def)

lemma round_to_ulp_err_ulp:
  "\<bar>round_to_ulp q - q\<bar> \<le> 2 powi (ulp_exp q) / 2"
proof (cases "q = 0")
  case True
  then show ?thesis by simp
next
  case False
  let ?u = "(2::rat) powi ulp_exp q"
  have u: "0 < ?u" by simp
  have "\<bar>q / ?u - of_int (round_half_even (q / ?u))\<bar> \<le> 1 / 2" by (rule rhe_err)
  then have "\<bar>q / ?u - of_int (round_half_even (q / ?u))\<bar> * ?u \<le> 1 / 2 * ?u"
    using u by (intro mult_right_mono) simp_all
  moreover have "\<bar>q / ?u - of_int (round_half_even (q / ?u))\<bar> * ?u
      = \<bar>q - of_int (round_half_even (q / ?u)) * ?u\<bar>"
  proof -
    have "\<bar>q / ?u - of_int (round_half_even (q / ?u))\<bar> * ?u
      = \<bar>(q / ?u - of_int (round_half_even (q / ?u))) * ?u\<bar>"
      using u by (simp add: abs_mult)
    also have "(q / ?u - of_int (round_half_even (q / ?u))) * ?u
      = q - of_int (round_half_even (q / ?u)) * ?u"
      using u by (simp add: field_simps)
    finally show ?thesis .
  qed
  ultimately show ?thesis using False by (simp add: round_to_ulp_def abs_minus_commute)
qed

lemma round_to_ulp_grid_le:
  assumes "q \<le> of_int n * 2 powi j" and "ulp_exp q \<le> j"
  shows "round_to_ulp q \<le> of_int n * 2 powi j"
proof (cases "q = 0")
  case True
  then show ?thesis using assms by simp
next
  case False
  let ?e = "ulp_exp q"
  let ?u = "(2::rat) powi ?e"
  have u: "0 < ?u" by simp
  have split: "(2::rat) powi j = 2 powi (j - ?e) * ?u"
    by (simp flip: power_int_add)
  have "0 \<le> j - ?e" using assms(2) by simp
  then have pw: "(2::rat) powi (j - ?e) = of_int (2 ^ nat (j - ?e))"
    by (simp add: powi_of_nat)
  have "q / ?u \<le> of_int n * 2 powi (j - ?e)"
    using assms(1) u by (simp add: split field_simps)
  then have "q / ?u \<le> of_int (n * 2 ^ nat (j - ?e))" by (simp add: pw)
  then have "round_half_even (q / ?u) \<le> round_half_even (of_int (n * 2 ^ nat (j - ?e)))"
    by (rule rhe_mono)
  then have "round_half_even (q / ?u) \<le> n * 2 ^ nat (j - ?e)" by (simp only: rhe_of_int)
  then have "(of_int (round_half_even (q / ?u)) :: rat) \<le> of_int (n * 2 ^ nat (j - ?e))"
    by (simp only: of_int_le_iff)
  then have "of_int (round_half_even (q / ?u)) * ?u \<le> of_int (n * 2 ^ nat (j - ?e)) * ?u"
    using u by (intro mult_right_mono) simp_all
  also have "\<dots> = of_int n * 2 powi j" by (simp add: split pw)
  finally show ?thesis using False by (simp add: round_to_ulp_def)
qed

lemma round_to_ulp_grid_ge:
  assumes "of_int n * 2 powi j \<le> q" and "ulp_exp q \<le> j"
  shows "of_int n * 2 powi j \<le> round_to_ulp q"
proof (cases "q = 0")
  case True
  then show ?thesis using assms by simp
next
  case False
  let ?e = "ulp_exp q"
  let ?u = "(2::rat) powi ?e"
  have u: "0 < ?u" by simp
  have split: "(2::rat) powi j = 2 powi (j - ?e) * ?u"
    by (simp flip: power_int_add)
  have "0 \<le> j - ?e" using assms(2) by simp
  then have pw: "(2::rat) powi (j - ?e) = of_int (2 ^ nat (j - ?e))"
    by (simp add: powi_of_nat)
  have "of_int n * 2 powi (j - ?e) \<le> q / ?u"
    using assms(1) u by (simp add: split field_simps)
  then have "of_int (n * 2 ^ nat (j - ?e)) \<le> q / ?u" by (simp add: pw)
  then have "round_half_even (of_int (n * 2 ^ nat (j - ?e))) \<le> round_half_even (q / ?u)"
    by (rule rhe_mono)
  then have "n * 2 ^ nat (j - ?e) \<le> round_half_even (q / ?u)" by (simp only: rhe_of_int)
  then have "(of_int (n * 2 ^ nat (j - ?e)) :: rat) \<le> of_int (round_half_even (q / ?u))"
    by (simp only: of_int_le_iff)
  then have le: "of_int (n * 2 ^ nat (j - ?e)) * ?u \<le> of_int (round_half_even (q / ?u)) * ?u"
    using u by (intro mult_right_mono) simp_all
  have eq: "of_int (n * 2 ^ nat (j - ?e)) * ?u = of_int n * 2 powi j" by (simp add: split pw)
  have "of_int n * 2 powi j \<le> of_int (round_half_even (q / ?u)) * ?u"
    using le unfolding eq .
  then show ?thesis using False by (simp add: round_to_ulp_def)
qed

lemma ulp_exp_le_of_abs_le:
  assumes "q \<noteq> 0" and "\<bar>q\<bar> \<le> 2 powi k" and "- 1022 \<le> k"
  shows "ulp_exp q \<le> k - 52"
proof -
  have "\<bar>q\<bar> < 2 powi (k + 1)"
    using assms(2) powi_strict_mono [of k "k + 1"] by simp
  then have "floor_log2 \<bar>q\<bar> < k + 1" using assms(1) by (intro floor_log2_less) simp_all
  then show ?thesis using assms(3) by (simp add: ulp_exp_def)
qed

lemma round_to_ulp_exact:
  assumes "q = of_int m * 2 powi e" and "\<bar>m\<bar> < 2 ^ 53" and "- 1074 \<le> e"
  shows "round_to_ulp q = q"
proof (cases "q = 0")
  case True
  then show ?thesis by simp
next
  case False
  have "(of_int \<bar>m\<bar> :: rat) < of_int (2 ^ 53)" using assms(2) by (simp only: of_int_less_iff)
  then have m: "\<bar>of_int m :: rat\<bar> < 2 powi 53" by simp
  have "\<bar>q\<bar> = \<bar>of_int m\<bar> * 2 powi e" by (simp add: assms(1) abs_mult)
  also have "\<dots> < 2 powi 53 * 2 powi e" using m by (intro mult_strict_right_mono) simp_all
  also have "\<dots> = 2 powi (53 + e)" by (simp add: power_int_add)
  finally have "floor_log2 \<bar>q\<bar> < 53 + e" using False by (intro floor_log2_less) simp_all
  then have u: "ulp_exp q \<le> e" using assms(3) by (simp add: ulp_exp_def)
  have "round_to_ulp q \<le> of_int m * 2 powi e"
    using u assms(1) by (intro round_to_ulp_grid_le) simp_all
  moreover have "of_int m * 2 powi e \<le> round_to_ulp q"
    using u assms(1) by (intro round_to_ulp_grid_ge) simp_all
  ultimately show ?thesis using assms(1) by simp
qed

lemma round_to_ulp_err:
  assumes "\<bar>q\<bar> \<le> 2 powi k" and "- 1022 \<le> k"
  shows "\<bar>round_to_ulp q - q\<bar> \<le> 2 powi (k - 53)"
proof (cases "q = 0")
  case True
  then show ?thesis by simp
next
  case False
  have "ulp_exp q \<le> k - 52" using False assms by (rule ulp_exp_le_of_abs_le)
  then have "(2::rat) powi ulp_exp q \<le> 2 powi (k - 52)" by (rule powi_mono)
  moreover have "(2::rat) powi (k - 52) = 2 * 2 powi (k - 53)"
    using powi_Suc [of "k - 53"] by simp
  ultimately show ?thesis using round_to_ulp_err_ulp [of q] by linarith
qed

lemma round_to_ulp_abs_le:
  assumes "\<bar>q\<bar> \<le> 2 powi k" and "- 1022 \<le> k"
  shows "\<bar>round_to_ulp q\<bar> \<le> 2 powi k"
proof (cases "q = 0")
  case True
  then show ?thesis by simp
next
  case False
  have "ulp_exp q \<le> k - 52" using False assms by (rule ulp_exp_le_of_abs_le)
  then have u: "ulp_exp q \<le> k" by simp
  have "round_to_ulp q \<le> of_int 1 * 2 powi k"
    using assms(1) u by (intro round_to_ulp_grid_le) simp_all
  moreover have "of_int (- 1) * 2 powi k \<le> round_to_ulp q"
    using assms(1) u by (intro round_to_ulp_grid_ge) simp_all
  ultimately show ?thesis by simp
qed

lemma round_to_ulp_nonneg:
  assumes "0 \<le> q"
  shows "0 \<le> round_to_ulp q"
proof -
  have "of_int 0 * 2 powi ulp_exp q \<le> round_to_ulp q"
    using assms by (intro round_to_ulp_grid_ge) simp_all
  then show ?thesis by simp
qed

lemma ulp_exp_mono:
  assumes "0 < q" and "q \<le> q'"
  shows "ulp_exp q \<le> ulp_exp q'"
  using floor_log2_mono [of "\<bar>q\<bar>" "\<bar>q'\<bar>"] assms by (simp add: ulp_exp_def)

lemma round_to_ulp_mono:
  assumes "0 \<le> q" and "q \<le> q'"
  shows "round_to_ulp q \<le> round_to_ulp q'"
proof (cases "q = 0")
  case True
  then show ?thesis using assms round_to_ulp_nonneg [of q'] by simp
next
  case False
  then have q: "0 < q" and q': "0 < q'" using assms by simp_all
  have le: "ulp_exp q \<le> ulp_exp q'" using q assms(2) by (rule ulp_exp_mono)
  show ?thesis
  proof (cases "ulp_exp q = ulp_exp q'")
    case True
    let ?u = "(2::rat) powi ulp_exp q'"
    have "q / ?u \<le> q' / ?u" using assms(2) by (simp add: divide_right_mono)
    then have "round_half_even (q / ?u) \<le> round_half_even (q' / ?u)" by (rule rhe_mono)
    then have "(of_int (round_half_even (q / ?u)) :: rat) \<le> of_int (round_half_even (q' / ?u))"
      by (simp only: of_int_le_iff)
    then have "of_int (round_half_even (q / ?u)) * ?u \<le> of_int (round_half_even (q' / ?u)) * ?u"
      by (intro mult_right_mono) simp_all
    then show ?thesis using q q' True by (simp add: round_to_ulp_def)
  next
    case False
    then have lt: "ulp_exp q < ulp_exp q'" using le by simp
    let ?f = "floor_log2 q" and ?f' = "floor_log2 q'"
    have e': "ulp_exp q' = ?f' - 52" using lt q' by (simp add: ulp_exp_def max_def split: if_splits)
    have "?f - 52 \<le> ulp_exp q" using q by (simp add: ulp_exp_def)
    then have ff: "?f + 1 \<le> ?f'" using lt e' by simp
    have "q < 2 powi (?f + 1)" using q by (rule floor_log2_bounds)
    also have "\<dots> \<le> 2 powi ?f'" using ff by (rule powi_mono)
    finally have qB: "q \<le> of_int 1 * 2 powi ?f'" by simp
    have Bq': "of_int 1 * 2 powi ?f' \<le> q'" using floor_log2_bounds(1) [OF q'] by simp
    have "round_to_ulp q \<le> of_int 1 * 2 powi ?f'"
      using qB lt e' by (intro round_to_ulp_grid_le) simp_all
    moreover have "of_int 1 * 2 powi ?f' \<le> round_to_ulp q'"
      using Bq' e' by (intro round_to_ulp_grid_ge) simp_all
    ultimately show ?thesis by simp
  qed
qed

subsection \<open>Rounding to a double\<close>

lemma rnd_in_range:
  assumes "\<bar>round_to_ulp q\<bar> < 2 powi 1024"
  shows "rnd q = Fin (round_to_ulp q)"
proof -
  define B where "B = (2::rat) powi 1024"
  have "\<bar>round_to_ulp q\<bar> < B" using assms by (simp only: B_def)
  then have "\<not> B \<le> round_to_ulp q" and "\<not> round_to_ulp q \<le> - B" by linarith+
  then have "(let r = round_to_ulp q in if B \<le> r then PInf else if r \<le> - B then NInf else Fin r)
      = Fin (round_to_ulp q)"
    by (simp only: Let_def if_False)
  then show ?thesis unfolding rnd_def B_def .
qed

lemma rnd_Fin:
  assumes "\<bar>q\<bar> \<le> 2 powi k" and "- 1022 \<le> k" and "k \<le> 1023"
  shows "rnd q = Fin (round_to_ulp q)"
proof -
  have "\<bar>round_to_ulp q\<bar> \<le> 2 powi k" using assms(1,2) by (rule round_to_ulp_abs_le)
  moreover have "(2::rat) powi k < 2 powi 1024" using assms(3) by (intro powi_strict_mono) simp
  ultimately have "\<bar>round_to_ulp q\<bar> < 2 powi 1024" by (rule le_less_trans)
  then show ?thesis by (rule rnd_in_range)
qed

lemma rnd_exact:
  assumes "q = of_int m * 2 powi e" and "\<bar>m\<bar> < 2 ^ 53" and "- 1074 \<le> e" and "e \<le> 970"
  shows "rnd q = Fin q"
proof -
  have "(of_int \<bar>m\<bar> :: rat) < of_int (2 ^ 53)" using assms(2) by (simp only: of_int_less_iff)
  then have m: "\<bar>of_int m :: rat\<bar> < 2 powi 53" by simp
  have "\<bar>q\<bar> = \<bar>of_int m\<bar> * 2 powi e" by (simp add: assms(1) abs_mult)
  also have "\<dots> \<le> 2 powi 53 * 2 powi e" using m by (intro mult_right_mono) simp_all
  also have "\<dots> = 2 powi (53 + e)" by (simp add: power_int_add)
  also have "\<dots> < 2 powi 1024" using assms(4) by (intro powi_strict_mono) simp
  finally have "\<bar>q\<bar> < 2 powi 1024" .
  moreover have r: "round_to_ulp q = q" using assms(1-3) by (rule round_to_ulp_exact)
  ultimately have "\<bar>round_to_ulp q\<bar> < 2 powi 1024" by (simp only: r)
  then have "rnd q = Fin (round_to_ulp q)" by (rule rnd_in_range)
  then show ?thesis by (simp only: r)
qed

lemma rnd_of_int:
  assumes "\<bar>n\<bar> < 2 ^ 53"
  shows "rnd (of_int n) = Fin (of_int n)"
  using rnd_exact [of "of_int n" n 0] assms by simp

lemma rnd_half_int:
  assumes "\<bar>n\<bar> < 2 ^ 53"
  shows "rnd (of_int n / 2) = Fin (of_int n / 2)"
  using rnd_exact [of "of_int n / 2" n "- 1"] assms by (simp add: power_int_minus)

subsection \<open>Rounding to cents\<close>

text \<open>
  \<open>roundMoney\<close> on a number \<open>v\<close> from 0 to \<open>2 powi k\<close> returns the double nearest to a whole
  number of cents, and that number is the integer nearest to \<open>100 * v\<close> unless \<open>100 * v\<close> is
  within \<open>2 powi (k - 43)\<close> of the middle of two integers.
\<close>

lemma Num_of_int: "\<bar>n\<bar> < 2 ^ 53 \<Longrightarrow> Num (of_int n) = Fin (of_int n)"
  by (simp add: Num_def rnd_of_int)

lemma Num_100: "Num 100 = Fin 100"
  using Num_of_int [of 100] by simp

lemma Num_0: "Num 0 = Fin 0"
  using Num_of_int [of 0] by simp

lemma powi_split: "j = i + d \<Longrightarrow> (2::rat) powi j = 2 powi i * 2 powi d"
  by (simp add: power_int_add)

lemma roundMoney_core:
  assumes "0 \<le> v" and "v \<le> 2 powi k" and "0 \<le> k" and "k \<le> 40"
  obtains y where "roundMoney (Fin v) = rnd (of_int \<lfloor>y + 1 / 2\<rfloor> / 100)"
    and "\<bar>y - 100 * v\<bar> \<le> 2 powi (k - 43)" and "0 \<le> y"
proof -
  define P where "P = (2::rat) powi (k - 45)"
  have P: "0 < P" by (simp add: P_def)
  have p52: "(2::rat) powi (k - 52) = P / 128"
    using powi_split [of "k - 45" "k - 52" 7] by (simp add: P_def)
  have p43: "(2::rat) powi (k - 43) = 4 * P"
    using powi_split [of "k - 43" "k - 45" 2] by (simp add: P_def)
  have eps: "(2::rat) powi (- 52) \<le> P / 128"
    using powi_mono [of "- 52" "k - 52"] assms(3) by (simp add: p52)
  have pk1: "(2::rat) powi (k + 1) = 2 * 2 powi k" by (rule powi_Suc)
  have pk8: "(2::rat) powi (k + 8) = 256 * 2 powi k"
    using powi_split [of "k + 8" k 8] by simp
  have pkpos: "0 < (2::rat) powi k" by simp
  define a where "a = v + 2 powi (- 52)"
  define y1 where "y1 = round_to_ulp a"
  have a0: "0 \<le> a" using assms(1) by (simp add: a_def)
  have "(2::rat) powi (- 52) \<le> 2 powi k" using assms(3) by (intro powi_mono) simp
  then have a_le: "\<bar>a\<bar> \<le> 2 powi (k + 1)" using assms(1,2) a0 by (simp add: a_def pk1)
  have r1: "rnd a = Fin y1" unfolding y1_def by (rule rnd_Fin [OF a_le]) (use assms(3,4) in linarith)+
  have e1: "\<bar>y1 - a\<bar> \<le> 2 powi (k + 1 - 53)"
    unfolding y1_def by (rule round_to_ulp_err [OF a_le]) (use assms(3) in linarith)
  moreover have "k + 1 - 53 = k - 52" by simp
  ultimately have e1': "\<bar>y1 - a\<bar> \<le> P / 128" by (simp only: p52)
  have m1: "\<bar>y1\<bar> \<le> 2 powi (k + 1)"
    unfolding y1_def by (rule round_to_ulp_abs_le [OF a_le]) (use assms(3) in linarith)
  have y1_0: "0 \<le> y1" unfolding y1_def using a0 by (rule round_to_ulp_nonneg)
  define b where "b = y1 * 100"
  define y2 where "y2 = round_to_ulp b"
  have b0: "0 \<le> b" using y1_0 by (simp add: b_def)
  have b_le: "\<bar>b\<bar> \<le> 2 powi (k + 8)" using m1 y1_0 pkpos by (simp add: b_def pk1 pk8)
  have r2: "rnd b = Fin y2" unfolding y2_def by (rule rnd_Fin [OF b_le]) (use assms(3,4) in linarith)+
  have e2: "\<bar>y2 - b\<bar> \<le> 2 powi (k + 8 - 53)"
    unfolding y2_def by (rule round_to_ulp_err [OF b_le]) (use assms(3) in linarith)
  moreover have "k + 8 - 53 = k - 45" by simp
  ultimately have e2': "\<bar>y2 - b\<bar> \<le> P" by (simp only: P_def)
  have y2_0: "0 \<le> y2" unfolding y2_def using b0 by (rule round_to_ulp_nonneg)
  have "roundMoney (Fin v) = rnd (of_int \<lfloor>y2 + 1 / 2\<rfloor> / 100)"
    using r1 r2 by (simp add: roundMoney_def EPSILON_def Num_100 a_def b_def)
  moreover have "\<bar>y2 - 100 * v\<bar> \<le> 2 powi (k - 43)"
  proof -
    define E where "E = (2::rat) powi (- 52)"
    have E: "0 < E" "E \<le> P / 128" using eps by (simp_all add: E_def)
    define x where "x = y2 - b"
    define z where "z = y1 - a"
    define d where "d = y2 - 100 * v"
    have eq: "d = x + 100 * z + 100 * E"
      by (simp add: a_def b_def E_def x_def z_def d_def)
    have f: "\<bar>z\<bar> \<le> P / 128" "\<bar>x\<bar> \<le> P"
      using e1' e2' by (simp_all only: x_def z_def)
    have "d \<le> 4 * P" using eq f E P by linarith
    moreover have "- d \<le> 4 * P" using eq f E P by linarith
    ultimately have "\<bar>y2 - 100 * v\<bar> \<le> 4 * P" unfolding d_def by linarith
    then show ?thesis by (simp only: p43)
  qed
  ultimately show ?thesis using y2_0 that by blast
qed

lemma roundMoney_cents:
  assumes "0 \<le> v" and "v \<le> 2 powi k" and "0 \<le> k" and "k \<le> 40"
    and "\<bar>100 * v - of_int c\<bar> < 1 / 2 - 2 powi (k - 43)"
  shows "roundMoney (Fin v) = rnd (of_int c / 100)"
proof -
  obtain y where y: "roundMoney (Fin v) = rnd (of_int \<lfloor>y + 1 / 2\<rfloor> / 100)"
      "\<bar>y - 100 * v\<bar> \<le> 2 powi (k - 43)"
    using roundMoney_core [OF assms(1-4)] by blast
  have "of_int c \<le> y + 1 / 2" and "y + 1 / 2 < of_int c + 1"
    using y(2) assms(5) by linarith+
  then have "\<lfloor>y + 1 / 2\<rfloor> = c" by (simp add: floor_unique)
  then show ?thesis using y(1) by simp
qed

lemma roundMoney_some_cents:
  assumes "0 \<le> v" and "v \<le> 2 powi k" and "0 \<le> k" and "k \<le> 40"
  obtains c :: int where "roundMoney (Fin v) = rnd (of_int c / 100)"
    and "\<bar>of_int c - 100 * v\<bar> \<le> 1 / 2 + 2 powi (k - 43)" and "0 \<le> c"
proof -
  obtain y where y: "roundMoney (Fin v) = rnd (of_int \<lfloor>y + 1 / 2\<rfloor> / 100)"
      "\<bar>y - 100 * v\<bar> \<le> 2 powi (k - 43)" "0 \<le> y"
    using roundMoney_core [OF assms(1-4)] by blast
  let ?c = "\<lfloor>y + 1 / 2\<rfloor>"
  have "of_int ?c \<le> y + 1 / 2" "y + 1 / 2 < of_int ?c + 1" by linarith+
  then have "\<bar>of_int ?c - 100 * v\<bar> \<le> 1 / 2 + 2 powi (k - 43)" using y(2) by linarith
  moreover have "0 \<le> ?c" using y(3) by simp
  ultimately show ?thesis using y(1) that by blast
qed

section \<open>The matcher and the language of an expression\<close>

lemma first_fit_None_iff:
  "first_fit k s lo n = None \<longleftrightarrow> (\<forall>j. lo \<le> j \<and> j \<le> n \<longrightarrow> k (drop j s) = None)"
proof (induction n)
  case 0
  then show ?case by auto
next
  case (Suc n)
  show ?case
  proof (cases "Suc n < lo")
    case True
    then show ?thesis by auto
  next
    case False
    then have lo: "lo \<le> Suc n" by simp
    show ?thesis
    proof (cases "k (drop (Suc n) s)")
      case None
      then show ?thesis using False Suc by (auto simp: le_Suc_eq)
    next
      case (Some r)
      then show ?thesis using False lo by auto
    qed
  qed
qed

lemma take_all_iff_le_takeWhile:
  "n \<le> length s \<and> list_all p (take n s) \<longleftrightarrow> n \<le> length (takeWhile p s)"
proof (induction s arbitrary: n)
  case Nil
  then show ?case by simp
next
  case (Cons c s)
  then show ?case by (cases n) auto
qed

lemma greedy_max_iff:
  "j \<le> greedy_max a s \<longleftrightarrow>
     j \<le> length s \<and> list_all (rx_class a) (take j s) \<and> (case rx_max a of None \<Rightarrow> True | Some m \<Rightarrow> j \<le> m)"
  using take_all_iff_le_takeWhile [of j s "rx_class a"]
  by (auto simp: greedy_max_def Let_def split: option.splits)

lemma rx_test_iff_lang: "rx_test to_end as s = rx_lang to_end as s"
proof (induction as arbitrary: s)
  case Nil
  then show ?case by (auto simp: rx_test_def)
next
  case (Cons a as)
  have "rx_test to_end (a # as) s \<longleftrightarrow>
        first_fit (rx_match to_end as) s (rx_min a) (greedy_max a s) \<noteq> None"
    by (auto simp: rx_test_def split: option.splits)
  also have "\<dots> \<longleftrightarrow> (\<exists>j. rx_min a \<le> j \<and> j \<le> greedy_max a s \<and> rx_test to_end as (drop j s))"
    by (auto simp: first_fit_None_iff rx_test_def)
  also have "\<dots> \<longleftrightarrow> rx_lang to_end (a # as) s"
    using Cons by (auto simp: greedy_max_iff)
  finally show ?case .
qed

lemma rx_lang_Cons_append:
  "rx_lang to_end (a # as) s \<longleftrightarrow>
     (\<exists>u v. s = u @ v \<and> rx_min a \<le> length u
        \<and> (case rx_max a of None \<Rightarrow> True | Some m \<Rightarrow> length u \<le> m)
        \<and> list_all (rx_class a) u \<and> rx_lang to_end as v)"
proof
  assume "rx_lang to_end (a # as) s"
  then obtain n where n: "n \<le> length s" "rx_min a \<le> n"
      "case rx_max a of None \<Rightarrow> True | Some m \<Rightarrow> n \<le> m"
      "list_all (rx_class a) (take n s)" "rx_lang to_end as (drop n s)"
    by auto
  have "s = take n s @ drop n s" by simp
  moreover have "length (take n s) = n" using n(1) by simp
  ultimately show "\<exists>u v. s = u @ v \<and> rx_min a \<le> length u
        \<and> (case rx_max a of None \<Rightarrow> True | Some m \<Rightarrow> length u \<le> m)
        \<and> list_all (rx_class a) u \<and> rx_lang to_end as v"
    using n by metis
next
  assume "\<exists>u v. s = u @ v \<and> rx_min a \<le> length u
        \<and> (case rx_max a of None \<Rightarrow> True | Some m \<Rightarrow> length u \<le> m)
        \<and> list_all (rx_class a) u \<and> rx_lang to_end as v"
  then obtain u v where uv: "s = u @ v" "rx_min a \<le> length u"
      "case rx_max a of None \<Rightarrow> True | Some m \<Rightarrow> length u \<le> m"
      "list_all (rx_class a) u" "rx_lang to_end as v"
    by auto
  then show "rx_lang to_end (a # as) s"
    by (auto intro!: exI [of _ "length u"])
qed

lemma all_eq_one: "length u = Suc 0 \<Longrightarrow> list_all (\<lambda>d. d = c) u \<Longrightarrow> u = [c]"
  by (cases u) auto

lemma job_header_parts:
  assumes "isJobHeader line"
  shows "\<exists>indent ident w1 w2.
        line = indent @ ident @ w1 @ '':'' @ w2
        \<and> length indent = 2 \<and> list_all is_space indent
        \<and> ident \<noteq> [] \<and> list_all is_ident ident
        \<and> list_all is_space w1 \<and> list_all is_space w2"
proof -
  have "rx_lang True re_job_header line"
    using assms by (simp add: isJobHeader_def rx_test_iff_lang)
  then obtain u1 u2 u3 u4 u5 where
      "line = u1 @ u2 @ u3 @ u4 @ u5" "length u1 = 2" "list_all is_space u1"
      "1 \<le> length u2" "list_all is_ident u2" "list_all is_space u3"
      "length u4 = 1" "list_all (\<lambda>d. d = CHR '':'') u4" "list_all is_space u5"
    unfolding re_job_header_def rx_lang_Cons_append
    by (auto simp: Times_def Plus_def Star_def Lit_def)
  moreover from this have "u4 = '':''" using all_eq_one by simp
  ultimately show ?thesis
    by (intro exI [of _ u1] exI [of _ u2] exI [of _ u3] exI [of _ u5]) auto
qed

lemma parts_job_header:
  assumes "length indent = 2" and "list_all is_space indent"
    and "ident \<noteq> []" and "list_all is_ident ident"
    and "list_all is_space w1" and "list_all is_space w2"
  shows "isJobHeader (indent @ ident @ w1 @ '':'' @ w2)"
proof -
  have "rx_lang True re_job_header (indent @ ident @ w1 @ '':'' @ w2)"
    unfolding re_job_header_def rx_lang_Cons_append
    apply (rule exI [of _ indent], rule exI [of _ "ident @ w1 @ '':'' @ w2"])
    apply (simp add: Times_def assms)
    apply (rule exI [of _ ident], rule exI [of _ "w1 @ '':'' @ w2"])
    apply (simp add: Plus_def assms Suc_le_eq)
    apply (rule exI [of _ w1], rule exI [of _ "'':'' @ w2"])
    apply (simp add: Star_def assms)
    apply (rule exI [of _ "'':''"], rule exI [of _ w2])
    apply (simp add: Lit_def)
    apply (simp add: assms)
    done
  then show ?thesis by (simp add: isJobHeader_def rx_test_iff_lang)
qed

text \<open>
  C4 (as amended). The scanner tests the line, once its comment is removed, with
  \<open>isJobHeader\<close>. A line is a job header exactly when it is two whitespace characters
  (any characters of the class \<^verbatim>\<open>\s\<close>: spaces, tabs, ...), then a non-empty identifier, then
  optional whitespace, a colon and optional whitespace up to the end of the line: the
  language of \<^verbatim>\<open>^\s{2}[a-zA-Z0-9_-]+\s*:\s*$\<close>.
\<close>

theorem job_header_iff:
  "isJobHeader line \<longleftrightarrow>
     (\<exists>indent ident w1 w2.
        line = indent @ ident @ w1 @ '':'' @ w2
        \<and> length indent = 2 \<and> list_all is_space indent
        \<and> ident \<noteq> [] \<and> list_all is_ident ident
        \<and> list_all is_space w1 \<and> list_all is_space w2)"
proof
  assume "isJobHeader line"
  then show "\<exists>indent ident w1 w2.
        line = indent @ ident @ w1 @ '':'' @ w2
        \<and> length indent = 2 \<and> list_all is_space indent
        \<and> ident \<noteq> [] \<and> list_all is_ident ident
        \<and> list_all is_space w1 \<and> list_all is_space w2"
    by (rule job_header_parts)
next
  assume "\<exists>indent ident w1 w2.
        line = indent @ ident @ w1 @ '':'' @ w2
        \<and> length indent = 2 \<and> list_all is_space indent
        \<and> ident \<noteq> [] \<and> list_all is_ident ident
        \<and> list_all is_space w1 \<and> list_all is_space w2"
  then obtain indent ident w1 w2 where "line = indent @ ident @ w1 @ '':'' @ w2"
      "length indent = 2" "list_all is_space indent" "ident \<noteq> []" "list_all is_ident ident"
      "list_all is_space w1" "list_all is_space w2"
    by blast
  then show "isJobHeader line" using parts_job_header [of indent ident w1 w2] by simp
qed

lemmas rx_eval = rx_test_def greedy_max_def Times_def Plus_def Star_def Lit_def Word_def
  is_space_def is_ident_def is_lower_def is_upper_def is_digit_def any_char_def
  is_line_terminator_def

text \<open>
  C4 as the specification states it fails: a line indented with two tabs, and a line with a
  space between the identifier and the colon, are job headers for the scanner, and
  neither matches \<^verbatim>\<open>^  [A-Za-z0-9_-]+:\s*$\<close>.
\<close>

theorem job_header_spec_counterexample:
  "isJobHeader ([CHR 0x09, CHR 0x09] @ ''build:'')
   \<and> \<not> rx_test True spec_re_job_header ([CHR 0x09, CHR 0x09] @ ''build:'')
   \<and> isJobHeader ''  build :''
   \<and> \<not> rx_test True spec_re_job_header ''  build :''"
  by (simp add: isJobHeader_def re_job_header_def spec_re_job_header_def rx_eval)

section \<open>The scanner: lines before the first job\<close>

lemma rx_lang_Times_prefix:
  assumes "rx_lang to_end (Times p n # as) s"
  shows "n \<le> length s \<and> list_all p (take n s)"
proof -
  from assms obtain u v where "s = u @ v" "length u = n" "list_all p u"
    unfolding rx_lang_Cons_append by (auto simp: Times_def)
  then show ?thesis by auto
qed

lemma space_not_ident: "is_space c \<Longrightarrow> \<not> is_ident c"
  by (auto simp: is_space_def is_ident_def is_lower_def is_upper_def is_digit_def)

lemma indented_not_header:
  assumes "3 \<le> length line" and "is_space (line ! 2)"
  shows "\<not> isJobHeader line"
proof
  assume "isJobHeader line"
  then obtain indent ident w1 w2 where h: "line = indent @ ident @ w1 @ '':'' @ w2"
      "length indent = 2" "ident \<noteq> []" "list_all is_ident ident"
    using job_header_parts by blast
  from h(3) obtain c cs where ident: "ident = c # cs" by (cases ident) auto
  have "line ! 2 = c" using h(1,2) ident by (simp add: nth_append)
  moreover have "is_ident c" using h(4) ident by simp
  ultimately show False using assms(2) space_not_ident by blast
qed

lemma Times_prefix_nth:
  assumes "rx_lang to_end (Times is_space n # as) s" and "3 \<le> n"
  shows "3 \<le> length s \<and> is_space (s ! 2)"
proof -
  have a: "n \<le> length s" "list_all is_space (take n s)"
    using rx_lang_Times_prefix [OF assms(1)] by simp_all
  have "take n s ! 2 = s ! 2" using assms(2) by simp
  moreover have "2 < length (take n s)" using a(1) assms(2) by simp
  ultimately have "is_space (s ! 2)" using a(2) by (metis list_all_length)
  then show ?thesis using a(1) assms(2) by simp
qed

lemma field_line_not_header:
  assumes "is_field_line line"
  shows "\<not> isJobHeader line"
proof -
  from assms consider "rx_test True re_runs_on line" | "rx_test False re_uses line"
    | "rx_test False re_run line"
    by (auto simp: is_field_line_def runsOnMatch_def rx_test_def)
  then have "3 \<le> length line \<and> is_space (line ! 2)"
  proof cases
    case 1
    then have "rx_lang True (Times is_space 4 # tl re_runs_on) line"
      by (simp add: rx_test_iff_lang re_runs_on_def)
    then show ?thesis by (rule Times_prefix_nth) simp
  next
    case 2
    then have "rx_lang False (Times is_space 6 # tl re_uses) line"
      by (simp add: rx_test_iff_lang re_uses_def)
    then show ?thesis by (rule Times_prefix_nth) simp
  next
    case 3
    then have "rx_lang False (Times is_space 6 # tl re_run) line"
      by (simp add: rx_test_iff_lang re_run_def)
    then show ?thesis by (rule Times_prefix_nth) simp
  qed
  then show ?thesis using indented_not_header by blast
qed

lemma scan_line_no_current:
  assumes "inJobs st" and "currentJob st = None" and "\<not> isJobHeader (strip_comment raw)"
  shows "scan_line st raw = st"
  using assms by (simp add: scan_line_def Let_def)

lemma scan_lines_append: "scan_lines st (xs @ ys) = scan_lines (scan_lines st xs) ys"
  by (simp add: scan_lines_def)

lemma scan_lines_Cons: "scan_lines st (x # xs) = scan_lines (scan_line st x) xs"
  by (simp add: scan_lines_def)

text \<open>
  C9. Inside the jobs section (\<open>inJobs\<close> is set after the lines \<open>pre\<close>) and before the
  first recognized job header (there is no current job yet), a \<^verbatim>\<open>runs-on:\<close>, \<^verbatim>\<open>- uses:\<close> or
  \<^verbatim>\<open>- run:\<close> line leaves every variable of the scanner as it was: it creates no job and
  adds nothing to a job, and the scan of the whole text is the scan of the text without
  that line.
\<close>

theorem field_lines_before_first_header_ignored:
  assumes "inJobs (scan_lines scan_init pre)"
    and "currentJob (scan_lines scan_init pre) = None"
    and "is_field_line (strip_comment raw)"
  shows "scan_line (scan_lines scan_init pre) raw = scan_lines scan_init pre
         \<and> scan_lines scan_init (pre @ raw # post) = scan_lines scan_init (pre @ post)"
proof -
  have "scan_line (scan_lines scan_init pre) raw = scan_lines scan_init pre"
    using assms field_line_not_header by (intro scan_line_no_current) simp_all
  then show ?thesis by (simp add: scan_lines_append scan_lines_Cons)
qed

theorem field_lines_before_first_header_ignored_witness:
  "inJobs (scan_lines scan_init [''jobs:''])
   \<and> currentJob (scan_lines scan_init [''jobs:'']) = None
   \<and> is_field_line (strip_comment ''    runs-on: windows-latest'')
   \<and> scan_line (scan_lines scan_init [''jobs:'']) ''    runs-on: windows-latest''
       = scan_lines scan_init [''jobs:'']
   \<and> scan_lines scan_init ([''jobs:''] @ ''    runs-on: windows-latest'' # [''  build:''])
       = scan_lines scan_init ([''jobs:''] @ [''  build:''])"
proof -
  have a: "inJobs (scan_lines scan_init [''jobs:''])"
    and b: "currentJob (scan_lines scan_init [''jobs:'']) = None"
    by (simp_all add: scan_lines_def scan_init_def scan_line_def trim_def re_jobs_def rx_eval)
  have c: "is_field_line (strip_comment ''    runs-on: windows-latest'')"
    by (simp add: is_field_line_def runsOnMatch_def re_runs_on_def rx_eval)
  show ?thesis
    using field_lines_before_first_header_ignored [OF a b c, of "[''  build:'']"] a b c by simp
qed

section \<open>The aggregator: one entry for each runner\<close>

lemma parseRunsOn_known: "known_os (parseRunsOn raw)"
  by (simp add: parseRunsOn_def known_os_def Let_def)

lemma scan_line_known:
  assumes "scan_known st"
  shows "scan_known (scan_line st raw)"
proof -
  have l: "known_os ''linux''" by (simp add: known_os_def)
  show ?thesis
    using assms l
    by (auto simp: scan_known_def scan_line_def Let_def push_current_def parseRunsOn_known
        split: option.splits)
qed

lemma scan_lines_known:
  assumes "scan_known st"
  shows "scan_known (scan_lines st ls)"
  using assms
proof (induction ls arbitrary: st)
  case Nil
  then show ?case by (simp add: scan_lines_def)
next
  case (Cons l ls)
  then show ?case by (simp add: scan_lines_Cons scan_line_known)
qed

lemma parseJobsAndSteps_known:
  "parseJobsAndSteps text \<noteq> [] \<and> list_all (\<lambda>j. known_os (os j)) (parseJobsAndSteps text)"
proof -
  have "scan_known scan_init" by (simp add: scan_known_def scan_init_def)
  then have "scan_known (scan_lines scan_init (split_lines text))" by (rule scan_lines_known)
  then have "list_all (\<lambda>j. known_os (os j)) (push_current (scan_lines scan_init (split_lines text)))"
    by (auto simp: scan_known_def push_current_def split: option.splits)
  then show ?thesis
    by (simp add: parseJobsAndSteps_def Let_def fallback_job_def known_os_def)
qed

lemma map_fst_map_set:
  "map fst (map_set k v m) = (if k \<in> fst ` set m then map fst m else map fst m @ [k])"
proof (induction m)
  case Nil
  then show ?case by simp
next
  case (Cons p m)
  obtain k' v' where p: "p = (k', v')" by (cases p)
  show ?case
  proof (cases "k' = k")
    case True
    then show ?thesis by (simp add: p)
  next
    case False
    then show ?thesis using Cons by (simp add: p)
  qed
qed

lemma map_set_list_all:
  assumes "list_all P m" and "P (k, v)"
  shows "list_all P (map_set k v m)"
  using assms by (induction m) auto

lemma map_set_keyed:
  assumes "keyed m" and "e_os v = k"
  shows "keyed (map_set k v m)"
proof -
  have "list_all (\<lambda>(k, v). e_os v = k) (map_set k v m)"
    using assms by (intro map_set_list_all) (simp_all add: keyed_def)
  moreover have "distinct (map fst (map_set k v m))"
    using assms(1) by (auto simp: map_fst_map_set keyed_def)
  ultimately show ?thesis by (simp add: keyed_def)
qed

lemma keyed_map_of:
  assumes "keyed m" and "map_of m k = Some v"
  shows "e_os v = k"
  using assms by (induction m) (auto simp: keyed_def split: if_splits)

lemma add_job_keyed:
  assumes "keyed m"
  shows "keyed (add_job m j)"
proof -
  have "e_os (case map_of m (os j) of
                Some entry \<Rightarrow> entry
              | None \<Rightarrow> \<lparr>e_os = os j, e_jobs = 0, e_stepCount = 0,
                         e_minutesPerRun = Num 0, e_costPerRunUsd = Num 0\<rparr>) = os j"
    using keyed_map_of [OF assms] by (auto split: option.splits)
  then show ?thesis
    unfolding add_job_def Let_def using assms by (intro map_set_keyed) simp_all
qed

lemma add_job_keys: "fst ` set (add_job m j) = insert (os j) (fst ` set m)"
proof -
  have "set (map fst (add_job m j)) = insert (os j) (set (map fst m))"
    unfolding add_job_def Let_def map_fst_map_set by auto
  then show ?thesis by simp
qed

lemma foldl_add_job_keyed:
  assumes "keyed m"
  shows "keyed (foldl add_job m js)"
  using assms by (induction js arbitrary: m) (simp_all add: add_job_keyed)

lemma foldl_add_job_keys: "fst ` set (foldl add_job m js) = fst ` set m \<union> os ` set js"
  by (induction js arbitrary: m) (auto simp: add_job_keys)

lemma map_set_jobs_total:
  "jobs_total (map_set k v m) + (case map_of m k of None \<Rightarrow> 0 | Some old \<Rightarrow> e_jobs old)
     = jobs_total m + e_jobs v"
  by (induction m) (auto simp: jobs_total_def)

lemma add_job_jobs_total: "jobs_total (add_job m j) = jobs_total m + 1"
proof (cases "map_of m (os j)")
  case None
  then show ?thesis
    using map_set_jobs_total [of "os j" _ m] by (simp add: add_job_def Let_def)
next
  case (Some old)
  define v where "v = old\<lparr>e_jobs := e_jobs old + 1,
                     e_stepCount := e_stepCount old + steps j,
                     e_minutesPerRun := fadd (e_minutesPerRun old) (minutes j),
                     e_costPerRunUsd := fadd (e_costPerRunUsd old) (fmul (minutes j) (rate_of (os j)))\<rparr>"
  have "add_job m j = map_set (os j) v m" using Some by (simp add: add_job_def Let_def v_def)
  moreover have "jobs_total (map_set (os j) v m) + e_jobs old = jobs_total m + e_jobs v"
    using map_set_jobs_total [of "os j" v m] Some by simp
  moreover have "e_jobs v = e_jobs old + 1" by (simp add: v_def)
  ultimately show ?thesis by simp
qed

lemma foldl_add_job_jobs_total: "jobs_total (foldl add_job m js) = jobs_total m + length js"
  by (induction js arbitrary: m) (simp_all add: add_job_jobs_total)

lemma foldl_add_entry_totalJobs:
  "totalJobs (foldl add_entry t es) = totalJobs t + sum_list (map e_jobs es)"
  by (induction es arbitrary: t) (simp_all add: add_entry_def)

lemma e_os_emit [simp]: "e_os (emit_entry e) = e_os e"
  and e_jobs_emit [simp]: "e_jobs (emit_entry e) = e_jobs e"
  and e_stepCount_emit [simp]: "e_stepCount (emit_entry e) = e_stepCount e"
  by (simp_all add: emit_entry_def)

lemma aggregate_jobs: "sum_list (map e_jobs (aggregateByOs js)) = length js"
proof -
  have "map e_jobs (aggregateByOs js) = map (e_jobs \<circ> snd) (foldl add_job [] js)"
    by (simp add: aggregateByOs_def)
  then show ?thesis
    using foldl_add_job_jobs_total [of "[]" js] by (simp add: jobs_total_def)
qed

lemma aggregate_os: "map e_os (aggregateByOs js) = map fst (foldl add_job [] js)"
proof -
  have k: "keyed (foldl add_job [] js)" by (rule foldl_add_job_keyed) (simp add: keyed_def)
  have "map e_os (aggregateByOs js) = map (e_os \<circ> snd) (foldl add_job [] js)"
    by (simp add: aggregateByOs_def)
  also have "\<dots> = map fst (foldl add_job [] js)"
    using k by (intro map_cong) (auto simp: keyed_def list_all_iff)
  finally show ?thesis .
qed

lemma aggregate_distinct: "distinct (map e_os (aggregateByOs js))"
proof -
  have "keyed (foldl add_job [] js)" by (rule foldl_add_job_keyed) (simp add: keyed_def)
  then show ?thesis by (simp add: aggregate_os keyed_def)
qed

lemma aggregate_os_set: "e_os ` set (aggregateByOs js) = os ` set js"
proof -
  have "e_os ` set (aggregateByOs js) = set (map e_os (aggregateByOs js))" by simp
  also have "\<dots> = fst ` set (foldl add_job [] js)" by (simp only: aggregate_os set_map)
  also have "\<dots> = os ` set js" by (simp add: foldl_add_job_keys)
  finally show ?thesis .
qed

text \<open>
  C10. For every input, \<open>byOs\<close> is not empty, the runner of every entry is \<^verbatim>\<open>linux\<close>,
  \<^verbatim>\<open>windows\<close> or \<^verbatim>\<open>macos\<close>, no runner appears twice, and the summary counts at least one
  job.
\<close>

theorem byOs_well_formed:
  "byOs (estimateWorkflowCost input) \<noteq> []
   \<and> (\<forall>e \<in> set (byOs (estimateWorkflowCost input)).
         e_os e = ''linux'' \<or> e_os e = ''windows'' \<or> e_os e = ''macos'')
   \<and> distinct (map e_os (byOs (estimateWorkflowCost input)))
   \<and> 1 \<le> s_jobs (summary (estimateWorkflowCost input))"
proof -
  let ?js = "parseJobsAndSteps (workflowYaml input)"
  have js: "?js \<noteq> []" "list_all (\<lambda>j. known_os (os j)) ?js"
    using parseJobsAndSteps_known [of "workflowYaml input"] by simp_all
  have by_os: "byOs (estimateWorkflowCost input) = aggregateByOs ?js"
    by (simp add: estimateWorkflowCost_def Let_def)
  have "e_os ` set (aggregateByOs ?js) \<noteq> {}" using js(1) by (simp add: aggregate_os_set)
  then have nonempty: "aggregateByOs ?js \<noteq> []" by auto
  have known: "\<forall>e \<in> set (aggregateByOs ?js). known_os (e_os e)"
  proof
    fix e assume "e \<in> set (aggregateByOs ?js)"
    then have "e_os e \<in> os ` set ?js" using aggregate_os_set [of ?js] by blast
    then show "known_os (e_os e)" using js(2) by (auto simp: list_all_iff)
  qed
  have "s_jobs (summary (estimateWorkflowCost input)) = sum_list (map e_jobs (aggregateByOs ?js))"
    by (simp add: estimateWorkflowCost_def Let_def sum_entries_def foldl_add_entry_totalJobs)
  then have "s_jobs (summary (estimateWorkflowCost input)) = length ?js"
    by (simp add: aggregate_jobs)
  then have "1 \<le> s_jobs (summary (estimateWorkflowCost input))"
    using js(1) by (cases ?js) simp_all
  then show ?thesis
    using nonempty known aggregate_distinct [of ?js] by (simp add: by_os known_os_def)
qed

section \<open>Costs of concrete workflows\<close>

lemma rnd_approx:
  assumes "\<bar>q\<bar> \<le> 2 powi k" and "- 1022 \<le> k" and "k \<le> 1023"
  shows "\<exists>y. rnd q = Fin y \<and> \<bar>y - q\<bar> \<le> 2 powi (k - 53) \<and> \<bar>y\<bar> \<le> 2 powi k \<and> (0 \<le> q \<longrightarrow> 0 \<le> y)"
  using rnd_Fin [OF assms] round_to_ulp_err [OF assms(1,2)] round_to_ulp_abs_le [OF assms(1,2)]
    round_to_ulp_nonneg [of q] by blast

lemma Num_half_int: "\<bar>n\<bar> < 2 ^ 53 \<Longrightarrow> Num (of_int n / 2) = Fin (of_int n / 2)"
  by (simp add: Num_def rnd_half_int)

lemma Num_2: "Num 2 = Fin 2"
  using Num_of_int [of 2] by simp

lemma Num_3: "Num 3 = Fin 3"
  using Num_of_int [of 3] by simp

lemma Num_3_2: "Num (3 / 2) = Fin (3 / 2)"
  using Num_half_int [of 3] by simp

lemma Num_17_2: "Num (17 / 2) = Fin (17 / 2)"
  using Num_half_int [of 17] by simp

lemma fadd_half_int:
  assumes "x + y = of_int n / 2" and "\<bar>n\<bar> < 2 ^ 53"
  shows "fadd (Fin x) (Fin y) = Fin (x + y)"
  unfolding fadd.simps assms(1) by (rule rnd_half_int [OF assms(2)])

text \<open>The cost of one job of \<open>m\<close> minutes at a rate near \<open>\<rho>\<close>, as the aggregator emits it.\<close>

lemma single_job_cost:
  assumes "0 < \<rho>" and "\<rho> \<le> 1 / 8" and "0 \<le> m" and "m \<le> 16"
    and "\<bar>100 * (m * \<rho>) - of_int c\<bar> \<le> 2 / 5"
  shows "roundMoney (fadd (Fin 0) (fmul (Fin m) (rnd \<rho>))) = rnd (of_int c / 100)"
proof -
  have p3: "(2::rat) powi (- 3) = 1 / 8" by (simp add: power_int_minus)
  have p2: "(2::rat) powi 2 = 4" by simp
  have p56: "(2::rat) powi (- 3 - 53) = 1 / 72057594037927936" by (simp add: power_int_minus)
  have p51: "(2::rat) powi (2 - 53) = 1 / 2251799813685248" by (simp add: power_int_minus)
  have p41: "(2::rat) powi (2 - 43) = 1 / 2199023255552" by (simp add: power_int_minus)
  have "\<bar>\<rho>\<bar> \<le> 2 powi (- 3)" using assms(1,2) by (simp add: p3)
  then obtain r where r: "rnd \<rho> = Fin r" "\<bar>r - \<rho>\<bar> \<le> 2 powi (- 3 - 53)" "\<bar>r\<bar> \<le> 2 powi (- 3)"
      "0 \<le> r"
    using rnd_approx [of \<rho> "- 3"] assms(1) by auto
  have r_err: "\<bar>r - \<rho>\<bar> \<le> 1 / 72057594037927936" using r(2) by (simp only: p56)
  have r_le: "r \<le> 1 / 8" using r(3,4) by (simp add: p3)
  define d where "d = m * (r - \<rho>)"
  have "\<bar>d\<bar> = m * \<bar>r - \<rho>\<bar>" using assms(3) by (simp add: d_def abs_mult)
  also have "\<dots> \<le> 16 * (1 / 72057594037927936)"
    using assms(3,4) r_err by (intro mult_mono) simp_all
  finally have d: "\<bar>d\<bar> \<le> 16 / 72057594037927936" by simp
  define t where "t = m * \<rho>"
  have mr: "m * r = t + d" by (simp add: d_def t_def algebra_simps)
  have mr0: "0 \<le> m * r" using assms(3) r(4) by simp
  have "m * r \<le> 16 * (1 / 8)" using assms(3,4) r(4) r_le by (intro mult_mono) simp_all
  then have "\<bar>m * r\<bar> \<le> 2 powi 2" using mr0 by (simp add: p2)
  then obtain p where p: "rnd (m * r) = Fin p" "\<bar>p - m * r\<bar> \<le> 2 powi (2 - 53)" "\<bar>p\<bar> \<le> 2 powi 2"
      "0 \<le> p"
    using rnd_approx [of "m * r" 2] mr0 by auto
  have "\<bar>0 + p\<bar> \<le> 2 powi 2" using p(3) by simp
  then obtain p' where p': "rnd (0 + p) = Fin p'" "\<bar>p' - (0 + p)\<bar> \<le> 2 powi (2 - 53)"
      "\<bar>p'\<bar> \<le> 2 powi 2" "0 \<le> p'"
    using rnd_approx [of "0 + p" 2] p(4) by auto
  define x1 where "x1 = p - m * r"
  define x2 where "x2 = p' - p"
  have x: "\<bar>x1\<bar> \<le> 1 / 2251799813685248" "\<bar>x2\<bar> \<le> 1 / 2251799813685248"
    using p(2) p'(2) unfolding p51 by (simp_all only: x1_def x2_def add_0)
  have p'_eq: "p' = t + d + x1 + x2" using mr by (simp add: x1_def x2_def)
  define g where "g = 100 * t - of_int c"
  have g: "\<bar>g\<bar> \<le> 2 / 5" using assms(5) by (simp only: g_def t_def)
  define w where "w = 100 * p' - of_int c"
  have eq: "w = g + 100 * d + 100 * x1 + 100 * x2"
    by (simp add: p'_eq g_def w_def)
  have "\<bar>w\<bar> < 1 / 2 - 1 / 2199023255552"
    using eq g d x by linarith
  then have small: "\<bar>100 * p' - of_int c\<bar> < 1 / 2 - 2 powi (2 - 43)"
    by (simp only: w_def p41)
  have "roundMoney (Fin p') = rnd (of_int c / 100)"
    using p'(3,4) small by (intro roundMoney_cents [of p' 2 c]) simp_all
  moreover have "rnd p = Fin p'" using p'(1) by simp
  ultimately show ?thesis by (simp add: r(1) p(1))
qed

lemma split_B: "split_lines (unlines scenario_B) = scenario_B @ ['''']"
  by (simp add: split_lines_def unlines_def scenario_B_def)

lemma scan_B:
  "push_current (scan_lines scan_init (scenario_B @ [''''])) =
     [\<lparr>os = ''linux'', steps = 3,
       minutes = fadd (fadd (fadd (Num 2) STEP_MINUTES_uses) STEP_MINUTES_uses) STEP_MINUTES_run\<rparr>,
      \<lparr>os = ''windows'', steps = 1, minutes = fadd (Num 2) STEP_MINUTES_uses\<rparr>]"
  by (simp add: scenario_B_def scan_lines_def scan_init_def scan_line_def push_current_def trim_def
      runsOnMatch_def parseRunsOn_def toLowerCase_def lower_char_def
      re_jobs_def isJobHeader_def re_job_header_def re_runs_on_def re_uses_def re_run_def rx_eval)

lemma roundMoney_half_int:
  assumes "0 \<le> n" and "n \<le> 2 ^ 20"
  shows "roundMoney (Fin (of_int n / 2)) = Fin (of_int n / 2)"
proof -
  have "(of_int n :: rat) \<le> of_int (2 ^ 20)" using assms(2) by (simp only: of_int_le_iff)
  then have le: "(of_int n :: rat) / 2 \<le> 2 powi 20" by simp
  have "(2::rat) powi (20 - 43) = 1 / 2 ^ 23" by (simp add: power_int_minus)
  then have "\<bar>100 * (of_int n / 2) - of_int (50 * n)\<bar> < 1 / 2 - (2::rat) powi (20 - 43)"
    by simp
  then have "roundMoney (Fin (of_int n / 2)) = rnd (of_int (50 * n) / 100)"
    using assms(1) le by (intro roundMoney_cents [of _ 20 "50 * n"]) simp_all
  moreover have "(of_int (50 * n) :: rat) / 100 = of_int n / 2" by simp
  moreover have "\<bar>n\<bar> < 2 ^ 53" using assms by simp
  ultimately show ?thesis by (simp add: rnd_half_int)
qed

lemma minutes_B:
  "fadd (Num 2) STEP_MINUTES_uses = Fin (7 / 2)"
  "fadd (Fin (7 / 2)) STEP_MINUTES_uses = Fin 5"
  "fadd (Fin 5) STEP_MINUTES_run = Fin 8"
proof -
  have a: "fadd (Fin 2) (Fin (3 / 2)) = Fin (7 / 2)"
    using fadd_half_int [of 2 "3 / 2" 7] by simp
  have b: "fadd (Fin (7 / 2)) (Fin (3 / 2)) = Fin 5"
    using fadd_half_int [of "7 / 2" "3 / 2" 10] by simp
  have c: "fadd (Fin 5) (Fin 3) = Fin 8"
    using fadd_half_int [of 5 3 16] by simp
  show "fadd (Num 2) STEP_MINUTES_uses = Fin (7 / 2)"
    by (simp only: STEP_MINUTES_uses_def Num_2 Num_3_2 a)
  show "fadd (Fin (7 / 2)) STEP_MINUTES_uses = Fin 5"
    by (simp only: STEP_MINUTES_uses_def Num_3_2 b)
  show "fadd (Fin 5) STEP_MINUTES_run = Fin 8"
    by (simp only: STEP_MINUTES_run_def Num_3 c)
qed

lemma fadd_0_half_int:
  assumes "\<bar>n\<bar> < 2 ^ 53"
  shows "fadd (Fin 0) (Fin (of_int n / 2)) = Fin (of_int n / 2)"
  using fadd_half_int [of 0 "of_int n / 2" n] assms by simp

lemma emitted_minutes_B:
  "roundMoney (fadd (Num 0) (Fin 8)) = Num 8"
  "roundMoney (fadd (Num 0) (Fin (7 / 2))) = Num (7 / 2)"
proof -
  have "fadd (Fin 0) (Fin 8) = Fin 8" using fadd_0_half_int [of 16] by simp
  moreover have "roundMoney (Fin 8) = Fin 8" using roundMoney_half_int [of 16] by simp
  moreover have "Num 8 = Fin 8" using Num_of_int [of 8] by simp
  ultimately show "roundMoney (fadd (Num 0) (Fin 8)) = Num 8" by (simp add: Num_0)
  have "fadd (Fin 0) (Fin (7 / 2)) = Fin (7 / 2)" using fadd_0_half_int [of 7] by simp
  moreover have "roundMoney (Fin (7 / 2)) = Fin (7 / 2)" using roundMoney_half_int [of 7] by simp
  moreover have "Num (7 / 2) = Fin (7 / 2)" using Num_half_int [of 7] by simp
  ultimately show "roundMoney (fadd (Num 0) (Fin (7 / 2))) = Num (7 / 2)" by (simp add: Num_0)
qed

lemma emitted_cost_B:
  "roundMoney (fadd (Num 0) (fmul (Fin 8) (Num (8 / 1000)))) = Num (6 / 100)"
  "roundMoney (fadd (Num 0) (fmul (Fin (7 / 2)) (Num (16 / 1000)))) = Num (6 / 100)"
proof -
  show "roundMoney (fadd (Num 0) (fmul (Fin 8) (Num (8 / 1000)))) = Num (6 / 100)"
    using single_job_cost [of "8 / 1000" 8 6] by (simp add: Num_0) (simp add: Num_def)
  show "roundMoney (fadd (Num 0) (fmul (Fin (7 / 2)) (Num (16 / 1000)))) = Num (6 / 100)"
    using single_job_cost [of "16 / 1000" "7 / 2" 6] by (simp add: Num_0) (simp add: Num_def)
qed

text \<open>
  C6. For the two-job workflow of Scenario B, whatever the other fields of the input,
  \<open>byOs\<close> has exactly two entries: \<^verbatim>\<open>linux\<close> with 8.0 minutes and a cost of 0.06 for a run,
  and \<^verbatim>\<open>windows\<close> with 3.5 minutes and a cost of 0.06 for a run (each number the double
  that the decimal denotes).
\<close>

theorem scenario_B_byOs:
  "byOs (estimateWorkflowCost
           \<lparr>workflowYaml = scenario_B_text, monthlyRuns = runs, budgetUsd = budget,
            policyMode = mode\<rparr>) =
     [\<lparr>e_os = ''linux'', e_jobs = 1, e_stepCount = 3,
       e_minutesPerRun = Num 8, e_costPerRunUsd = Num (6 / 100)\<rparr>,
      \<lparr>e_os = ''windows'', e_jobs = 1, e_stepCount = 1,
       e_minutesPerRun = Num (7 / 2), e_costPerRunUsd = Num (6 / 100)\<rparr>]"
proof -
  have "parseJobsAndSteps scenario_B_text =
      [\<lparr>os = ''linux'', steps = 3, minutes = Fin 8\<rparr>,
       \<lparr>os = ''windows'', steps = 1, minutes = Fin (7 / 2)\<rparr>]"
    by (simp add: parseJobsAndSteps_def scenario_B_text_def split_B scan_B minutes_B)
  then have "aggregateByOs (parseJobsAndSteps scenario_B_text) =
      [\<lparr>e_os = ''linux'', e_jobs = 1, e_stepCount = 3,
        e_minutesPerRun = roundMoney (fadd (Num 0) (Fin 8)),
        e_costPerRunUsd = roundMoney (fadd (Num 0) (fmul (Fin 8) (Num (8 / 1000))))\<rparr>,
       \<lparr>e_os = ''windows'', e_jobs = 1, e_stepCount = 1,
        e_minutesPerRun = roundMoney (fadd (Num 0) (Fin (7 / 2))),
        e_costPerRunUsd = roundMoney (fadd (Num 0) (fmul (Fin (7 / 2)) (Num (16 / 1000))))\<rparr>]"
    by (simp add: aggregateByOs_def add_job_def emit_entry_def rate_of_def
        OS_RATE_PER_MINUTE_USD_def)
  then show ?thesis
    using emitted_cost_B by (simp add: estimateWorkflowCost_def Let_def emitted_minutes_B)
qed

section \<open>The fallback job\<close>

lemma trim_Nil_iff: "trim s = [] \<longleftrightarrow> list_all is_space s"
proof
  assume "trim s = []"
  then have "\<forall>c \<in> set (dropWhile is_space s). is_space c"
    by (simp add: trim_def dropWhile_eq_Nil_conv)
  moreover have "dropWhile is_space s \<noteq> [] \<Longrightarrow> \<not> is_space (hd (dropWhile is_space s))"
    by (rule hd_dropWhile)
  ultimately have "dropWhile is_space s = []" by (metis hd_in_set)
  then show "list_all is_space s" by (simp add: dropWhile_eq_Nil_conv list_all_iff)
next
  assume "list_all is_space s"
  then have d: "dropWhile is_space s = []" by (simp add: list_all_iff)
  show "trim s = []" by (simp only: trim_def d rev.simps dropWhile.simps)
qed

lemma header_not_blank:
  assumes "isJobHeader line"
  shows "trim line \<noteq> []"
proof
  assume "trim line = []"
  then have all: "list_all is_space line" by (simp add: trim_Nil_iff)
  from assms obtain indent ident w1 w2 where h: "line = indent @ ident @ w1 @ '':'' @ w2"
      "ident \<noteq> []" "list_all is_ident ident"
    using job_header_parts by blast
  from h(2) obtain c cs where "ident = c # cs" by (cases ident) auto
  then have "is_ident c" "is_space c" using h(1,3) all by simp_all
  then show False using space_not_ident by blast
qed

lemma scan_line_current:
  assumes "currentJob st \<noteq> None"
  shows "currentJob (scan_line st raw) \<noteq> None"
  using assms by (auto simp: scan_line_def Let_def split: option.splits)

lemma scan_lines_current:
  assumes "currentJob st \<noteq> None"
  shows "currentJob (scan_lines st ls) \<noteq> None"
  using assms
proof (induction ls arbitrary: st)
  case Nil
  then show ?case by (simp add: scan_lines_def)
next
  case (Cons l ls)
  have "currentJob (scan_line st l) \<noteq> None" using Cons.prems by (rule scan_line_current)
  then have "currentJob (scan_lines (scan_line st l) ls) \<noteq> None" by (rule Cons.IH)
  then show ?case by (simp add: scan_lines_Cons)
qed

lemma push_current_Nil_iff: "push_current st = [] \<longleftrightarrow> jobs st = [] \<and> currentJob st = None"
  by (auto simp: push_current_def split: option.splits)

lemma no_job_iff:
  assumes "jobs st = []" and "currentJob st = None"
  shows "push_current (scan_lines st ls) = [] \<longleftrightarrow> \<not> job_after_marker (inJobs st) ls"
  using assms
proof (induction ls arbitrary: st)
  case Nil
  then show ?case by (simp add: scan_lines_def push_current_Nil_iff)
next
  case (Cons raw rest)
  let ?line = "strip_comment raw"
  show ?case
  proof (cases "inJobs st")
    case False
    show ?thesis
    proof (cases "rx_test False re_jobs (trim ?line)")
      case True
      then have "scan_line st raw = st\<lparr>inJobs := True\<rparr>"
        using False by (simp add: scan_line_def Let_def)
      then show ?thesis using Cons False True by (simp add: scan_lines_Cons)
    next
      case no: False
      then have "scan_line st raw = st" using False by (simp add: scan_line_def Let_def)
      then show ?thesis using Cons False no by (simp add: scan_lines_Cons)
    qed
  next
    case True
    show ?thesis
    proof (cases "isJobHeader ?line")
      case header: True
      then have "trim ?line \<noteq> []" by (rule header_not_blank)
      then have "currentJob (scan_line st raw) \<noteq> None"
        using True header by (simp add: scan_line_def Let_def)
      then have "currentJob (scan_lines (scan_line st raw) rest) \<noteq> None"
        by (rule scan_lines_current)
      then show ?thesis using True header by (simp add: scan_lines_Cons push_current_Nil_iff)
    next
      case False
      then have "scan_line st raw = st" using True Cons.prems
        by (simp add: scan_line_def Let_def)
      then show ?thesis using Cons True False by (simp add: scan_lines_Cons)
    qed
  qed
qed

lemma no_job_fallback:
  assumes "\<not> recognizable_job text"
  shows "parseJobsAndSteps text = [fallback_job]"
proof -
  have "push_current (scan_lines scan_init (split_lines text)) = []"
    using assms no_job_iff [of scan_init "split_lines text"]
    by (simp add: recognizable_job_def scan_init_def)
  then show ?thesis by (simp add: parseJobsAndSteps_def)
qed

lemma fallback_entry:
  "aggregateByOs [fallback_job] =
     [\<lparr>e_os = ''linux'', e_jobs = 1, e_stepCount = 3,
       e_minutesPerRun = Num (17 / 2), e_costPerRunUsd = Num (7 / 100)\<rparr>]"
proof -
  have "fadd (Fin 0) (Fin (17 / 2)) = Fin (17 / 2)" using fadd_0_half_int [of 17] by simp
  moreover have "roundMoney (Fin (17 / 2)) = Fin (17 / 2)"
    using roundMoney_half_int [of 17] by simp
  ultimately have m: "roundMoney (fadd (Num 0) (Num (17 / 2))) = Num (17 / 2)"
    by (simp add: Num_0 Num_17_2)
  have c: "roundMoney (fadd (Num 0) (fmul (Num (17 / 2)) (Num (8 / 1000)))) = Num (7 / 100)"
    using single_job_cost [of "8 / 1000" "17 / 2" 7]
    by (simp add: Num_0 Num_17_2) (simp add: Num_def)
  have "aggregateByOs [fallback_job] =
     [\<lparr>e_os = ''linux'', e_jobs = 1, e_stepCount = 3,
       e_minutesPerRun = roundMoney (fadd (Num 0) (Num (17 / 2))),
       e_costPerRunUsd = roundMoney (fadd (Num 0) (fmul (Num (17 / 2)) (Num (8 / 1000))))\<rparr>]"
    by (simp add: aggregateByOs_def add_job_def emit_entry_def rate_of_def fallback_job_def
        OS_RATE_PER_MINUTE_USD_def)
  then show ?thesis using c by (simp add: m)
qed

text \<open>
  C5. When no line after a \<^verbatim>\<open>jobs:\<close> line is a job header, the estimate is the one of the
  fallback job (the function has no failing branch): one job, three steps, 8.5 minutes for
  a run, and \<open>byOs\<close> is the single \<^verbatim>\<open>linux\<close> entry of that job.
\<close>

theorem fallback_estimate:
  assumes "\<not> recognizable_job (workflowYaml input)"
  shows "s_jobs (summary (estimateWorkflowCost input)) = 1
         \<and> s_stepCount (summary (estimateWorkflowCost input)) = 3
         \<and> s_minutesPerRun (summary (estimateWorkflowCost input)) = Num (17 / 2)
         \<and> byOs (estimateWorkflowCost input) =
             [\<lparr>e_os = ''linux'', e_jobs = 1, e_stepCount = 3,
               e_minutesPerRun = Num (17 / 2), e_costPerRunUsd = Num (7 / 100)\<rparr>]"
proof -
  have agg: "aggregateByOs (parseJobsAndSteps (workflowYaml input)) =
      [\<lparr>e_os = ''linux'', e_jobs = 1, e_stepCount = 3,
        e_minutesPerRun = Num (17 / 2), e_costPerRunUsd = Num (7 / 100)\<rparr>]"
    using no_job_fallback [OF assms] by (simp only: fallback_entry)
  have "fadd (Fin 0) (Fin (17 / 2)) = Fin (17 / 2)" using fadd_0_half_int [of 17] by simp
  moreover have "roundMoney (Fin (17 / 2)) = Fin (17 / 2)"
    using roundMoney_half_int [of 17] by simp
  ultimately have m: "roundMoney (fadd (Num 0) (Num (17 / 2))) = Num (17 / 2)"
    by (simp add: Num_0 Num_17_2)
  show ?thesis
    by (simp add: estimateWorkflowCost_def Let_def agg sum_entries_def add_entry_def m)
qed

theorem fallback_estimate_witness:
  "\<not> recognizable_job ''name: CI''
   \<and> s_jobs (summary (estimateWorkflowCost
        \<lparr>workflowYaml = ''name: CI'', monthlyRuns = Fin 500, budgetUsd = Fin 40,
         policyMode = ''block''\<rparr>)) = 1
   \<and> s_minutesPerRun (summary (estimateWorkflowCost
        \<lparr>workflowYaml = ''name: CI'', monthlyRuns = Fin 500, budgetUsd = Fin 40,
         policyMode = ''block''\<rparr>)) = Num (17 / 2)"
proof -
  have h: "\<not> recognizable_job ''name: CI''"
    by (simp add: recognizable_job_def split_lines_def trim_def re_jobs_def rx_eval)
  show ?thesis
    using fallback_estimate [of "\<lparr>workflowYaml = ''name: CI'', monthlyRuns = Fin 500,
      budgetUsd = Fin 40, policyMode = ''block''\<rparr>"] h by simp
qed

theorem byOs_well_formed_witness:
  "byOs (estimateWorkflowCost
      \<lparr>workflowYaml = ''name: CI'', monthlyRuns = Fin 500, budgetUsd = Fin 40,
       policyMode = ''block''\<rparr>) \<noteq> []
   \<and> (e_os (hd (byOs (estimateWorkflowCost
          \<lparr>workflowYaml = ''name: CI'', monthlyRuns = Fin 500, budgetUsd = Fin 40,
           policyMode = ''block''\<rparr>))) = ''linux''
      \<or> e_os (hd (byOs (estimateWorkflowCost
          \<lparr>workflowYaml = ''name: CI'', monthlyRuns = Fin 500, budgetUsd = Fin 40,
           policyMode = ''block''\<rparr>))) = ''windows''
      \<or> e_os (hd (byOs (estimateWorkflowCost
          \<lparr>workflowYaml = ''name: CI'', monthlyRuns = Fin 500, budgetUsd = Fin 40,
           policyMode = ''block''\<rparr>))) = ''macos'')
   \<and> distinct (map e_os (byOs (estimateWorkflowCost
          \<lparr>workflowYaml = ''name: CI'', monthlyRuns = Fin 500, budgetUsd = Fin 40,
           policyMode = ''block''\<rparr>)))
   \<and> 1 \<le> s_jobs (summary (estimateWorkflowCost
          \<lparr>workflowYaml = ''name: CI'', monthlyRuns = Fin 500, budgetUsd = Fin 40,
           policyMode = ''block''\<rparr>))"
  using byOs_well_formed [of "\<lparr>workflowYaml = ''name: CI'', monthlyRuns = Fin 500,
    budgetUsd = Fin 40, policyMode = ''block''\<rparr>"] hd_in_set
  by blast

section \<open>The totals of the estimate\<close>

lemma monthly_cost:
  assumes "\<bar>x - of_int S / 100\<bar> \<le> 1 / 2 ^ 32" and "0 \<le> x" and "x \<le> 2 ^ 19"
    and "0 \<le> n" and "n \<le> 1000000"
  shows "roundMoney (fmul (Fin x) (Fin (of_int n))) = rnd (of_int (S * n) / 100)"
proof -
  define N where "N = (of_int n :: rat)"
  have N: "0 \<le> N" "N \<le> 1000000"
    using assms(4,5) by (simp_all add: N_def)
  define q where "q = x * N"
  have q0: "0 \<le> q" using assms(2) N(1) by (simp add: q_def)
  have "x * N \<le> 2 ^ 19 * 1000000" using assms(2,3) N by (intro mult_mono) simp_all
  then have q_le: "\<bar>q\<bar> \<le> 2 powi 39" using q0 by (simp add: q_def)
  obtain u where u: "rnd q = Fin u" "\<bar>u - q\<bar> \<le> 2 powi (39 - 53)" "\<bar>u\<bar> \<le> 2 powi 39" "0 \<le> u"
    using rnd_approx [OF q_le] q0 by auto
  have u_err: "\<bar>u - q\<bar> \<le> 1 / 16384" using u(2) by (simp add: power_int_minus)
  define d where "d = N * (x - of_int S / 100)"
  have "\<bar>d\<bar> = N * \<bar>x - of_int S / 100\<bar>" using N(1) by (simp add: d_def abs_mult)
  also have "\<dots> \<le> 1000000 * (1 / 2 ^ 32)" using N assms(1) by (intro mult_mono) simp_all
  finally have d: "\<bar>d\<bar> \<le> 1000000 / 4294967296" by simp
  define w where "w = 100 * u - of_int (S * n)"
  define g where "g = u - q"
  have eq: "w = 100 * g + 100 * d"
    by (simp add: w_def g_def d_def q_def N_def algebra_simps)
  have g: "\<bar>g\<bar> \<le> 1 / 16384" using u_err by (simp only: g_def)
  have "\<bar>w\<bar> < 1 / 2 - 1 / 16" using eq g d by linarith
  moreover have "(2::rat) powi (39 - 43) = 1 / 16" by (simp add: power_int_minus)
  ultimately have small: "\<bar>100 * u - of_int (S * n)\<bar> < 1 / 2 - 2 powi (39 - 43)"
    by (simp only: w_def)
  have "roundMoney (Fin u) = rnd (of_int (S * n) / 100)"
    using u(3,4) small by (intro roundMoney_cents [of u 39 "S * n"]) simp_all
  then show ?thesis using u(1) by (simp add: q_def N_def)
qed

lemma foldl_add_entry_cost:
  "costPerRunUsd (foldl add_entry t es) = foldl fadd (costPerRunUsd t) (map e_costPerRunUsd es)"
  by (induction es arbitrary: t) (simp_all add: add_entry_def)

lemma cost_sum_aux:
  assumes "list_all2 cents_of es cs" and "j + length cs \<le> 3"
    and "\<bar>a - of_int A / 100\<bar> \<le> of_nat j * (5 / 2 ^ 36)" and "0 \<le> a"
    and "0 \<le> A" and "of_int A \<le> (of_nat j :: rat) * 13107200"
  shows "\<exists>x. foldl fadd (Fin a) (map e_costPerRunUsd es) = Fin x
           \<and> \<bar>x - of_int (A + sum_list cs) / 100\<bar> \<le> 15 / 2 ^ 36 \<and> 0 \<le> x \<and> x \<le> 2 ^ 19"
  using assms
proof (induction es cs arbitrary: j a A rule: list_all2_induct)
  case Nil
  define J where "J = (of_nat j :: rat)"
  define B where "B = (of_int A :: rat)"
  have J: "0 \<le> J" "J \<le> 3" using Nil(1) by (simp_all add: J_def)
  have f: "\<bar>a - B / 100\<bar> \<le> J * (5 / 2 ^ 36)" "B \<le> J * 13107200"
    using Nil(2,5) by (simp_all only: J_def B_def)
  have f': "\<bar>a - B / 100\<bar> \<le> J * (5 / 68719476736)" using f(1) by simp
  have "\<bar>a - B / 100\<bar> \<le> 15 / 68719476736" using f' J by linarith
  moreover have "a \<le> 524288" using f' f(2) J by linarith
  ultimately show ?case using Nil(3) by (simp add: B_def)
next
  case (Cons e es c cs)
  define J where "J = (of_nat j :: rat)"
  define B where "B = (of_int A :: rat)"
  define C where "C = (of_int c :: rat)"
  have J: "0 \<le> J" "J \<le> 2" using Cons.prems(1) by (simp_all add: J_def)
  have f: "\<bar>a - B / 100\<bar> \<le> J * (5 / 2 ^ 36)" "B \<le> J * 13107200" "0 \<le> B"
    using Cons.prems(2,4,5) by (simp_all add: J_def B_def)
  have c: "e_costPerRunUsd e = rnd (C / 100)" "0 \<le> C" "C \<le> 13107200"
    using Cons.hyps(1) by (simp_all add: cents_of_def C_def)
  have "\<bar>C / 100\<bar> \<le> 2 powi 17" using c(2,3) by simp
  then obtain v where v: "rnd (C / 100) = Fin v" "\<bar>v - C / 100\<bar> \<le> 2 powi (17 - 53)" "0 \<le> v"
    using rnd_approx [of "C / 100" 17] c(2) by auto
  have v_err: "\<bar>v - C / 100\<bar> \<le> 1 / 2 ^ 36" using v(2) by (simp add: power_int_minus)
  have av0: "0 \<le> a + v" using Cons.prems(3) v(3) by simp
  have f': "\<bar>a - B / 100\<bar> \<le> J * (5 / 68719476736)" using f(1) by simp
  have v_err': "\<bar>v - C / 100\<bar> \<le> 1 / 68719476736" using v_err by simp
  have "a + v \<le> 524288" using f' f(2) J c(3) v_err' by linarith
  then have "\<bar>a + v\<bar> \<le> 2 powi 19" using av0 by simp
  then obtain a' where a': "rnd (a + v) = Fin a'" "\<bar>a' - (a + v)\<bar> \<le> 2 powi (19 - 53)" "0 \<le> a'"
    using rnd_approx [of "a + v" 19] av0 by auto
  have a'_err: "\<bar>a' - (a + v)\<bar> \<le> 4 / 2 ^ 36" using a'(2) by (simp add: power_int_minus)
  have step: "foldl fadd (Fin a) (map e_costPerRunUsd (e # es))
      = foldl fadd (Fin a') (map e_costPerRunUsd es)"
    by (simp add: c(1) v(1) a'(1))
  have 1: "Suc j + length cs \<le> 3" using Cons.prems(1) by simp
  have 2: "\<bar>a' - of_int (A + c) / 100\<bar> \<le> of_nat (Suc j) * (5 / 2 ^ 36)"
  proof -
    define z where "z = a' - (B + C) / 100"
    define z1 where "z1 = a' - (a + v)"
    define z2 where "z2 = a - B / 100"
    define z3 where "z3 = v - C / 100"
    have "z = z1 + z2 + z3" by (simp add: z_def z1_def z2_def z3_def field_simps)
    moreover have "\<bar>z1\<bar> \<le> 4 / 68719476736" "\<bar>z2\<bar> \<le> J * (5 / 68719476736)"
        "\<bar>z3\<bar> \<le> 1 / 68719476736"
      using a'_err f' v_err' by (simp_all add: z1_def z2_def z3_def)
    ultimately have "\<bar>z\<bar> \<le> J * (5 / 68719476736) + 5 / 68719476736" by linarith
    then show ?thesis by (simp add: z_def J_def B_def C_def algebra_simps)
  qed
  have 3: "0 \<le> A + c" using Cons.prems(4) Cons.hyps(1) by (simp add: cents_of_def)
  have 4: "of_int (A + c) \<le> (of_nat (Suc j) :: rat) * 13107200"
    using f(2) c(3) by (simp add: J_def B_def C_def algebra_simps)
  obtain x where "foldl fadd (Fin a') (map e_costPerRunUsd es) = Fin x"
      "\<bar>x - of_int (A + c + sum_list cs) / 100\<bar> \<le> 15 / 2 ^ 36" "0 \<le> x" "x \<le> 2 ^ 19"
    using Cons.IH [OF 1 2 a'(3) 3 4] by blast
  then show ?case using step by (auto simp: add.assoc)
qed

lemma cost_sum:
  assumes "list_all2 cents_of es cs" and "length cs \<le> 3"
  shows "\<exists>x. costPerRunUsd (sum_entries es) = Fin x
           \<and> \<bar>x - of_int (sum_list cs) / 100\<bar> \<le> 1 / 2 ^ 32 \<and> 0 \<le> x \<and> x \<le> 2 ^ 19"
proof -
  obtain x where x: "foldl fadd (Fin 0) (map e_costPerRunUsd es) = Fin x"
      "\<bar>x - of_int (0 + sum_list cs) / 100\<bar> \<le> 15 / 2 ^ 36" "0 \<le> x" "x \<le> 2 ^ 19"
    using cost_sum_aux [OF assms(1), of 0 0 0] assms(2) by auto
  have "\<bar>x - of_int (sum_list cs) / 100\<bar> \<le> 1 / 2 ^ 32" using x(2) by simp
  then show ?thesis using x by (simp add: sum_entries_def foldl_add_entry_cost Num_0)
qed

lemma d_le_not_less: "d_le a b \<Longrightarrow> \<not> d_less b a"
  by (cases a; cases b) simp_all

text \<open>
  C1. For every input, the decision of the summary is \<^verbatim>\<open>pass\<close> when the monthly cost of the
  summary is at most its budget (equality included), and is the policy mode of the input
  when the monthly cost is more than the budget.
\<close>

theorem policy_decision:
  "(d_le (s_monthlyCostUsd (summary (estimateWorkflowCost input)))
         (s_budgetUsd (summary (estimateWorkflowCost input)))
      \<longrightarrow> s_policyDecision (summary (estimateWorkflowCost input)) = ''pass'')
   \<and> (d_less (s_budgetUsd (summary (estimateWorkflowCost input)))
            (s_monthlyCostUsd (summary (estimateWorkflowCost input)))
      \<longrightarrow> s_policyDecision (summary (estimateWorkflowCost input)) = policyMode input)"
  by (simp add: estimateWorkflowCost_def Let_def d_le_not_less)

lemma fallback_monthly:
  assumes "\<not> recognizable_job (workflowYaml input)"
    and "monthlyRuns input = Fin (of_int n)" and "0 \<le> n" and "n \<le> 1000000"
  shows "s_monthlyCostUsd (summary (estimateWorkflowCost input)) = rnd (of_int (7 * n) / 100)"
proof -
  let ?e = "\<lparr>e_os = ''linux'', e_jobs = 1, e_stepCount = 3,
        e_minutesPerRun = Num (17 / 2), e_costPerRunUsd = Num (7 / 100)\<rparr>"
  have agg: "aggregateByOs (parseJobsAndSteps (workflowYaml input)) = [?e]"
    using no_job_fallback [OF assms(1)] by (simp only: fallback_entry)
  have "cents_of ?e 7" by (simp add: cents_of_def Num_def)
  then have "list_all2 cents_of [?e] [7]" by simp
  then obtain x where x: "costPerRunUsd (sum_entries [?e]) = Fin x"
      "\<bar>x - of_int (sum_list [7]) / 100\<bar> \<le> 1 / 2 ^ 32" "0 \<le> x" "x \<le> 2 ^ 19"
    using cost_sum [of "[?e]" "[7]"] by auto
  have "roundMoney (fmul (Fin x) (Fin (of_int n))) = rnd (of_int (7 * n) / 100)"
    using x(2-4) assms(3,4) by (intro monthly_cost) simp_all
  then show ?thesis
    using x(1) by (simp add: estimateWorkflowCost_def Let_def agg assms(2))
qed

theorem policy_decision_witness:
  "d_le (s_monthlyCostUsd (summary (estimateWorkflowCost
          \<lparr>workflowYaml = ''name: CI'', monthlyRuns = Fin 500, budgetUsd = Fin 40,
           policyMode = ''block''\<rparr>)))
        (s_budgetUsd (summary (estimateWorkflowCost
          \<lparr>workflowYaml = ''name: CI'', monthlyRuns = Fin 500, budgetUsd = Fin 40,
           policyMode = ''block''\<rparr>)))
   \<and> s_policyDecision (summary (estimateWorkflowCost
          \<lparr>workflowYaml = ''name: CI'', monthlyRuns = Fin 500, budgetUsd = Fin 40,
           policyMode = ''block''\<rparr>)) = ''pass''
   \<and> d_less (s_budgetUsd (summary (estimateWorkflowCost
          \<lparr>workflowYaml = ''name: CI'', monthlyRuns = Fin 500, budgetUsd = Fin 20,
           policyMode = ''block''\<rparr>)))
        (s_monthlyCostUsd (summary (estimateWorkflowCost
          \<lparr>workflowYaml = ''name: CI'', monthlyRuns = Fin 500, budgetUsd = Fin 20,
           policyMode = ''block''\<rparr>)))
   \<and> s_policyDecision (summary (estimateWorkflowCost
          \<lparr>workflowYaml = ''name: CI'', monthlyRuns = Fin 500, budgetUsd = Fin 20,
           policyMode = ''block''\<rparr>)) = ''block''"
proof -
  have h: "\<not> recognizable_job ''name: CI''"
    by (simp add: recognizable_job_def split_lines_def trim_def re_jobs_def rx_eval)
  have r35: "rnd (of_int (7 * 500) / 100) = Fin 35" using rnd_of_int [of 35] by simp
  have m: "s_monthlyCostUsd (summary (estimateWorkflowCost
          \<lparr>workflowYaml = ''name: CI'', monthlyRuns = Fin 500, budgetUsd = b,
           policyMode = ''block''\<rparr>)) = Fin 35" for b
    using fallback_monthly [of "\<lparr>workflowYaml = ''name: CI'', monthlyRuns = Fin 500,
      budgetUsd = b, policyMode = ''block''\<rparr>" 500] h r35 by simp
  have b: "s_budgetUsd (summary (estimateWorkflowCost
          \<lparr>workflowYaml = ''name: CI'', monthlyRuns = Fin 500, budgetUsd = b,
           policyMode = ''block''\<rparr>)) = b" for b
    by (simp add: estimateWorkflowCost_def Let_def)
  show ?thesis
    using policy_decision [of "\<lparr>workflowYaml = ''name: CI'', monthlyRuns = Fin 500,
        budgetUsd = Fin 40, policyMode = ''block''\<rparr>"]
      policy_decision [of "\<lparr>workflowYaml = ''name: CI'', monthlyRuns = Fin 500,
        budgetUsd = Fin 20, policyMode = ''block''\<rparr>"]
    by (simp add: m b)
qed

section \<open>The sanitizer\<close>

lemma Num_million: "Num 1000000 = Fin 1000000"
  using Num_of_int [of 1000000] by simp

lemma valid_text_trimmed:
  assumes "valid_text v"
  shows "trimmed_string_of v \<noteq> [] \<and> length (trimmed_string_of v) \<le> 100000"
  using assms by (cases v) (simp_all add: valid_text_def)

lemma valid_amount_passes:
  assumes "valid_amount v"
  shows "\<exists>d. number_of v = Inr d \<and> isFinite d \<and> \<not> d_le d (Num 0) \<and> \<not> d_less (Num 1000000) d"
proof (cases v)
  case (JNumber d)
  then show ?thesis
    using assms by (cases d) (simp_all add: valid_amount_def Num_0 Num_million)
qed (use assms in \<open>simp_all add: valid_amount_def\<close>)

lemma trim_test_workflow: "trim test_workflow = test_workflow"
  by (simp add: trim_def test_workflow_def is_space_def)

lemma valid_test_workflow: "valid_text (JString test_workflow)"
  by (simp add: valid_text_def trim_test_workflow) (simp add: test_workflow_def)

text \<open>The conversion to a number throws for an object with a property \<^verbatim>\<open>toString\<close>, and for
  an array that holds one.\<close>

lemma number_of_TypeError_iff:
  "number_of v = Inl e \<longleftrightarrow>
     e = TypeError
     \<and> (v = JArray None \<or> (\<exists>props. v = JObject props \<and> ''toString'' \<in> fst ` set props))"
proof (cases v)
  case (JArray r)
  then show ?thesis by (cases r) auto
next
  case (JObject props)
  then show ?thesis by (auto simp: object_string_def)
qed simp_all

text \<open>The sanitizer throws one of its four messages or the \<^verbatim>\<open>TypeError\<close> of a conversion, and
  the latter when it comes to a run count or a budget that has no string.\<close>

lemma sanitize_outcomes:
  "(\<exists>input. sanitizeEstimateInput p = Inr input)
     \<or> sanitizeEstimateInput p = Inl (Error ''invalid_workflow_yaml'')
     \<or> sanitizeEstimateInput p = Inl (Error ''invalid_monthly_runs'')
     \<or> sanitizeEstimateInput p = Inl (Error ''invalid_budget_usd'')
     \<or> sanitizeEstimateInput p = Inl (Error ''invalid_policy_mode'')
     \<or> sanitizeEstimateInput p = Inl TypeError"
proof -
  have n: "number_of v = Inl e \<Longrightarrow> e = TypeError" for v e
    by (simp add: number_of_TypeError_iff)
  show ?thesis
    by (auto simp: sanitizeEstimateInput_def Let_def split: sum.splits dest: n)
qed

lemma sanitize_TypeError_iff:
  "sanitizeEstimateInput p = Inl TypeError \<longleftrightarrow>
     valid_text (p_workflowYaml p)
     \<and> (number_of (p_monthlyRuns p) = Inl TypeError
         \<or> (\<exists>runs. number_of (p_monthlyRuns p) = Inr runs \<and> isFinite runs
               \<and> \<not> d_le runs (Num 0) \<and> \<not> d_less (Num 1000000) runs)
           \<and> number_of (p_budgetUsd p) = Inl TypeError)"
proof -
  have n: "number_of v = Inl e \<Longrightarrow> e = TypeError" for v e
    by (simp add: number_of_TypeError_iff)
  have t: "valid_text v \<longleftrightarrow> trimmed_string_of v \<noteq> [] \<and> \<not> 100000 < length (trimmed_string_of v)"
    for v by (cases v) (auto simp: valid_text_def)
  show ?thesis
    by (auto simp: sanitizeEstimateInput_def Let_def t split: sum.splits if_splits dest: n)
qed

text \<open>The three rejections of the tests: an empty workflow text, \<open>monthlyRuns = -1\<close> with a valid
  workflow text, and \<open>policyMode = "noop"\<close> with the three fields before it valid.\<close>

lemma sanitize_rejects:
  "p_workflowYaml p = JString [] \<Longrightarrow>
     sanitizeEstimateInput p = Inl (Error ''invalid_workflow_yaml'')"
  "valid_text (p_workflowYaml p) \<Longrightarrow> p_monthlyRuns p = JNumber (Fin (- 1)) \<Longrightarrow>
     sanitizeEstimateInput p = Inl (Error ''invalid_monthly_runs'')"
  "valid_text (p_workflowYaml p) \<Longrightarrow> valid_amount (p_monthlyRuns p) \<Longrightarrow>
     valid_amount (p_budgetUsd p) \<Longrightarrow> p_policyMode p = JString ''noop'' \<Longrightarrow>
     sanitizeEstimateInput p = Inl (Error ''invalid_policy_mode'')"
proof -
  assume "p_workflowYaml p = JString []"
  then show "sanitizeEstimateInput p = Inl (Error ''invalid_workflow_yaml'')"
    by (simp add: sanitizeEstimateInput_def Let_def trim_def)
next
  assume "valid_text (p_workflowYaml p)" and "p_monthlyRuns p = JNumber (Fin (- 1))"
  then show "sanitizeEstimateInput p = Inl (Error ''invalid_monthly_runs'')"
    using valid_text_trimmed [of "p_workflowYaml p"]
    by (simp add: sanitizeEstimateInput_def Let_def Num_0)
next
  assume h: "valid_text (p_workflowYaml p)" "valid_amount (p_monthlyRuns p)"
    "valid_amount (p_budgetUsd p)" "p_policyMode p = JString ''noop''"
  have "toLowerCase (trim ''noop'') = ''noop''"
    by (simp add: trim_def toLowerCase_def lower_char_def is_space_def is_upper_def)
  moreover obtain runs budget where "number_of (p_monthlyRuns p) = Inr runs" "isFinite runs"
      "\<not> d_le runs (Num 0)" "\<not> d_less (Num 1000000) runs"
      "number_of (p_budgetUsd p) = Inr budget" "isFinite budget"
      "\<not> d_le budget (Num 0)" "\<not> d_less (Num 1000000) budget"
    using valid_amount_passes [OF h(2)] valid_amount_passes [OF h(3)] by blast
  ultimately show "sanitizeEstimateInput p = Inl (Error ''invalid_policy_mode'')"
    using h(4) valid_text_trimmed [OF h(1)]
    by (simp add: sanitizeEstimateInput_def Let_def)
qed

text \<open>
  C7 fails on the code. A run count or a budget that is no number goes through
  \<^verbatim>\<open>String(raw)\<close> before any guard reads it, and \<^verbatim>\<open>String\<close> throws a \<^verbatim>\<open>TypeError\<close> for an
  object that has a property \<^verbatim>\<open>toString\<close>. The request with the workflow text of the tests and
  \<^verbatim>\<open>"monthlyRuns": {"toString": null}\<close> fails with that \<^verbatim>\<open>TypeError\<close>, which is none of the four
  messages of the sanitizer.
\<close>

theorem sanitize_throws_TypeError:
  "sanitizeEstimateInput \<lparr>p_workflowYaml = JString test_workflow,
      p_monthlyRuns = JObject [(''toString'', JNull)], p_budgetUsd = JNumber (Fin 20),
      p_policyMode = JString ''warn''\<rparr>
     = Inl TypeError"
  by (simp add: sanitizeEstimateInput_def Let_def object_string_def trim_test_workflow)
    (simp add: test_workflow_def)

theorem sanitize_throws_TypeError_witness:
  "(case sanitizeEstimateInput \<lparr>p_workflowYaml = JString test_workflow,
      p_monthlyRuns = JObject [(''toString'', JNull)], p_budgetUsd = JNumber (Fin 20),
      p_policyMode = JString ''warn''\<rparr> of
      Inl e \<Rightarrow> e \<noteq> Error ''invalid_workflow_yaml'' \<and> e \<noteq> Error ''invalid_monthly_runs''
        \<and> e \<noteq> Error ''invalid_budget_usd'' \<and> e \<noteq> Error ''invalid_policy_mode''
    | Inr input \<Rightarrow> False)"
  using sanitize_throws_TypeError by simp

text \<open>
  C3 fails on the code. The sanitizer compares the run count and the budget with 0 before
  it rounds them, so a request with 0.4 runs and a budget of 0.001 passes both guards and
  comes out with \<open>monthlyRuns = 0\<close> and \<open>budgetUsd = 0\<close>: neither is in the bounds of the data
  model (1..1,000,000 runs, a positive budget).
\<close>

theorem sanitize_rounds_to_zero:
  "sanitizeEstimateInput \<lparr>p_workflowYaml = JString ''jobs:'',
      p_monthlyRuns = JNumber (Num (4 / 10)), p_budgetUsd = JNumber (Num (1 / 1000)),
      p_policyMode = JString ''warn''\<rparr>
     = Inr \<lparr>workflowYaml = ''jobs:'', monthlyRuns = Fin 0, budgetUsd = Fin 0,
            policyMode = ''warn''\<rparr>"
proof -
  have "\<bar>4 / 10 :: rat\<bar> \<le> 2 powi (- 1)" by (simp add: power_int_minus)
  then obtain r where r: "rnd (4 / 10) = Fin r" "\<bar>r - 4 / 10\<bar> \<le> 2 powi (- 1 - 53)"
    using rnd_approx [of "4 / 10" "- 1"] by auto
  have "(2::rat) powi (- 1 - 53) = 1 / 18014398509481984" by (simp add: power_int_minus)
  then have r': "\<bar>r - 4 / 10\<bar> \<le> 1 / 18014398509481984" using r(2) by (simp only:)
  have r_pos: "0 < r" "r \<le> 1000000" using r' by linarith+
  have "0 \<le> r + 1 / 2" "r + 1 / 2 < 1" using r' by linarith+
  then have r_round: "\<lfloor>r + 1 / 2\<rfloor> = 0" by (simp add: floor_eq_iff)
  have "\<bar>1 / 1000 :: rat\<bar> \<le> 2 powi (- 9)" by (simp add: power_int_minus)
  then obtain b where b: "rnd (1 / 1000) = Fin b" "\<bar>b - 1 / 1000\<bar> \<le> 2 powi (- 9 - 53)"
    using rnd_approx [of "1 / 1000" "- 9"] by auto
  have "(2::rat) powi (- 9 - 53) = 1 / 4611686018427387904" by (simp add: power_int_minus)
  then have b': "\<bar>b - 1 / 1000\<bar> \<le> 1 / 4611686018427387904" using b(2) by (simp only:)
  have b_pos: "0 < b" "b \<le> 1000000" "b \<le> 1" using b' by linarith+
  have p43: "(2::rat) powi (0 - 43) = 1 / 8796093022208" by (simp add: power_int_minus)
  have "\<bar>100 * b - 0\<bar> < 1 / 2 - 1 / 8796093022208" using b' by linarith
  then have "\<bar>100 * b - of_int 0\<bar> < 1 / 2 - 2 powi (0 - 43)" by (simp only: p43 of_int_0)
  then have "roundMoney (Fin b) = rnd (of_int 0 / 100)"
    using b_pos by (intro roundMoney_cents [of b 0 0]) simp_all
  then have money: "roundMoney (Fin b) = Fin 0" using rnd_of_int [of 0] by simp
  have "trim ''jobs:'' = ''jobs:''" by (simp add: trim_def is_space_def)
  moreover have "toLowerCase (trim ''warn'') = ''warn''"
    by (simp add: trim_def toLowerCase_def lower_char_def is_space_def is_upper_def)
  ultimately show ?thesis
    using r_pos r_round b_pos r(1) b(1)
    by (simp add: sanitizeEstimateInput_def Let_def Num_def money
        Num_0 [unfolded Num_def] Num_million [unfolded Num_def])
qed

theorem sanitize_rounds_to_zero_witness:
  "(case sanitizeEstimateInput \<lparr>p_workflowYaml = JString ''jobs:'',
      p_monthlyRuns = JNumber (Num (4 / 10)), p_budgetUsd = JNumber (Num (1 / 1000)),
      p_policyMode = JString ''warn''\<rparr> of
      Inl e \<Rightarrow> False
    | Inr input \<Rightarrow> monthlyRuns input = Fin 0 \<and> budgetUsd input = Fin 0)"
  using sanitize_rounds_to_zero by simp

text \<open>What the sanitizer does guarantee: every input it returns is within the bounds that
  the theorems on the monthly cost and on the sum of the costs ask for, and its budget is a
  whole number of cents, at most 1,000,000 dollars.\<close>

lemma sanitized_input_bounds:
  assumes "sanitizeEstimateInput p = Inr input"
  shows "workflowYaml input \<noteq> [] \<and> length (workflowYaml input) \<le> 100000
         \<and> (\<exists>n. monthlyRuns input = Fin (of_int n) \<and> 0 \<le> n \<and> n \<le> 1000000)
         \<and> (\<exists>c. budgetUsd input = rnd (of_int c / 100) \<and> 0 \<le> c \<and> c \<le> 100000000)
         \<and> (policyMode input = ''warn'' \<or> policyMode input = ''block'')"
proof -
  obtain runs budget where n: "number_of (p_monthlyRuns p) = Inr runs"
      "number_of (p_budgetUsd p) = Inr budget"
    using assms
    by (auto simp: sanitizeEstimateInput_def Let_def split: if_splits sum.splits)
  have ok: "trimmed_string_of (p_workflowYaml p) \<noteq> []"
      "length (trimmed_string_of (p_workflowYaml p)) \<le> 100000"
      "isFinite runs" "\<not> d_le runs (Fin 0)" "\<not> d_less (Fin 1000000) runs"
      "isFinite budget" "\<not> d_le budget (Fin 0)" "\<not> d_less (Fin 1000000) budget"
    using assms n
    by (auto simp: sanitizeEstimateInput_def Let_def Num_0 Num_million split: if_splits)
  have input: "workflowYaml input = trimmed_string_of (p_workflowYaml p)"
      "monthlyRuns input = Math_round runs" "budgetUsd input = roundMoney budget"
      "policyMode input = ''warn'' \<or> policyMode input = ''block''"
    using assms n by (auto simp: sanitizeEstimateInput_def Let_def split: if_splits)
  from ok(3) obtain r where r: "runs = Fin r" by (cases runs) simp_all
  have "0 < r" "r \<le> 1000000" using ok(4,5) by (simp_all add: r)
  then have "0 \<le> \<lfloor>r + 1 / 2\<rfloor>" "\<lfloor>r + 1 / 2\<rfloor> \<le> 1000000"
    by (simp_all add: floor_le_iff)
  then have runs: "\<exists>n. monthlyRuns input = Fin (of_int n) \<and> 0 \<le> n \<and> n \<le> 1000000"
    using input(2) by (intro exI [of _ "\<lfloor>r + 1 / 2\<rfloor>"]) (simp add: r)
  from ok(6) obtain b where b: "budget = Fin b" by (cases budget) simp_all
  have b_bounds: "0 \<le> b" "b \<le> 1000000" using ok(7,8) by (simp_all add: b)
  then have "b \<le> 2 powi 20" by simp
  then obtain c :: int where c: "roundMoney (Fin b) = rnd (of_int c / 100)"
      "\<bar>of_int c - 100 * b\<bar> \<le> 1 / 2 + 2 powi (20 - 43)" "0 \<le> c"
    using roundMoney_some_cents [of b 20] b_bounds(1) by auto
  have "(2::rat) powi (20 - 43) = 1 / 8388608" by (simp add: power_int_minus)
  then have "\<bar>of_int c - 100 * b\<bar> \<le> 1 / 2 + 1 / 8388608" using c(2) by (simp only:)
  then have "(of_int c :: rat) < 100000001" using b_bounds(2) by linarith
  then have "(of_int c :: rat) < of_int 100000001" by simp
  then have "c < 100000001" by (simp only: of_int_less_iff)
  then have "\<exists>c. budgetUsd input = rnd (of_int c / 100) \<and> 0 \<le> c \<and> c \<le> 100000000"
    using c(1,3) input(3) by (intro exI [of _ c]) (simp add: b)
  then show ?thesis using ok(1,2) input(1,4) runs by simp
qed

section \<open>Bounds on minutes and costs\<close>

lemma exact_job_nonneg: "exact_job j \<Longrightarrow> 0 \<le> val (minutes j)"
  by (auto simp: exact_job_def)

lemma minutes_sum_nonneg: "list_all exact_job js \<Longrightarrow> 0 \<le> minutes_sum js"
  by (induction js) (auto simp: minutes_sum_def exact_job_nonneg)

lemma minutes_sum_append: "minutes_sum (xs @ ys) = minutes_sum xs + minutes_sum ys"
  by (simp add: minutes_sum_def)

lemma minutes_sum_single: "minutes_sum [j] = val (minutes j)"
  by (simp add: minutes_sum_def)

lemma push_current_simps:
  "push_current (st\<lparr>inJobs := b\<rparr>) = push_current st"
  "push_current (st\<lparr>jobs := js, currentJob := Some c\<rparr>) = js @ [c]"
  "push_current (st\<lparr>currentJob := Some c\<rparr>) = jobs st @ [c]"
  by (cases "currentJob st"; simp add: push_current_def)+

lemma push_current_Some: "currentJob st = Some c \<Longrightarrow> push_current st = jobs st @ [c]"
  by (simp add: push_current_def)

lemma fadd_half_nat:
  assumes "h + k < 2 ^ 53"
  shows "fadd (Fin (of_nat h / 2)) (Fin (of_nat k / 2)) = Fin (of_nat (h + k) / 2)"
proof -
  have "\<bar>int (h + k)\<bar> < 2 ^ 53" using assms by (simp add: nat_int_comparison(2))
  moreover have "(of_nat h :: rat) / 2 + of_nat k / 2 = of_int (int (h + k)) / 2"
    by (simp add: add_divide_distrib)
  ultimately show ?thesis
    using fadd_half_int [of "of_nat h / 2" "of_nat k / 2" "int (h + k)"] by simp
qed

text \<open>A step of \<open>k\<close> half minutes added to the current job.\<close>

lemma add_step_exact:
  assumes "list_all exact_job (js @ [cur])" and "minutes_sum (js @ [cur]) \<le> 3 * of_nat n"
    and "n < 2 ^ 40" and "k \<le> 6" and "step = Fin (of_nat k / 2)"
  shows "list_all exact_job (js @ [cur\<lparr>steps := s, minutes := fadd (minutes cur) step\<rparr>])
         \<and> minutes_sum (js @ [cur\<lparr>steps := s, minutes := fadd (minutes cur) step\<rparr>])
             \<le> 3 * of_nat (Suc n)"
proof -
  from assms(1) obtain h :: nat where h: "minutes cur = Fin (of_nat h / 2)"
    by (auto simp: exact_job_def)
  have js: "list_all exact_job js" using assms(1) by simp
  have "(of_nat h :: rat) / 2 \<le> 3 * of_nat n"
    using assms(2) minutes_sum_nonneg [OF js]
    by (simp add: minutes_sum_append minutes_sum_single h)
  then have "(of_nat h :: rat) \<le> of_nat (6 * n)" by simp
  then have "h \<le> 6 * n" by (simp only: of_nat_le_iff)
  moreover have "6 * n + 6 < (2::nat) ^ 53" using assms(3) by simp
  ultimately have "h + k < 2 ^ 53" using assms(4) by linarith
  then have sum: "fadd (minutes cur) step = Fin (of_nat (h + k) / 2)"
    by (simp only: h assms(5) fadd_half_nat)
  have "(of_nat k :: rat) \<le> of_nat 6" using assms(4) by (simp only: of_nat_le_iff)
  then have k: "(of_nat k :: rat) / 2 \<le> 3" by simp
  have "exact_job (cur\<lparr>steps := s, minutes := fadd (minutes cur) step\<rparr>)"
    unfolding exact_job_def using sum by (intro exI [of _ "h + k"]) simp
  moreover have "val (fadd (minutes cur) step) = val (minutes cur) + of_nat k / 2"
    by (simp only: sum) (simp add: h add_divide_distrib)
  then have "minutes_sum (js @ [cur\<lparr>steps := s, minutes := fadd (minutes cur) step\<rparr>])
      = minutes_sum (js @ [cur]) + of_nat k / 2"
    by (simp add: minutes_sum_append minutes_sum_single)
  ultimately show ?thesis using js assms(2) k by simp
qed

lemma scan_line_exact:
  assumes "scan_exact st n" and "n < 2 ^ 40"
  shows "scan_exact (scan_line st raw) (Suc n)"
proof -
  have weaker: "scan_exact st (Suc n)" using assms(1) by (auto simp: scan_exact_def)
  have flag: "scan_exact (st\<lparr>inJobs := True\<rparr>) (Suc n)"
    using weaker by (simp add: scan_exact_def push_current_simps)
  have header: "scan_exact (st\<lparr>jobs := push_current st,
      currentJob := Some \<lparr>os = ''linux'', steps = 0, minutes = Num 2\<rparr>\<rparr>) (Suc n)"
  proof -
    have "exact_job \<lparr>os = ''linux'', steps = 0, minutes = Num 2\<rparr>"
      using Num_2 by (auto simp: exact_job_def intro!: exI [of _ 4])
    then show ?thesis
      using assms(1)
      by (simp add: scan_exact_def push_current_simps minutes_sum_append minutes_sum_single Num_2)
  qed
  have field: "scan_exact (st\<lparr>currentJob := Some (cur\<lparr>os := name\<rparr>)\<rparr>) (Suc n)"
    if "currentJob st = Some cur" for cur name
    using weaker that
    by (simp add: scan_exact_def push_current_simps push_current_Some minutes_sum_append
        minutes_sum_single exact_job_def)
  have step: "scan_exact (st\<lparr>currentJob :=
      Some (cur\<lparr>steps := s, minutes := fadd (minutes cur) d\<rparr>)\<rparr>) (Suc n)"
    if "currentJob st = Some cur" and "d = Fin (of_nat k / 2)" and "k \<le> 6" for cur s d k
    using add_step_exact [of "jobs st" cur n k d s] assms that
    by (simp add: scan_exact_def push_current_simps push_current_Some)
  have uses: "STEP_MINUTES_uses = Fin (of_nat 3 / 2)"
    by (simp add: STEP_MINUTES_uses_def Num_3_2)
  have run: "STEP_MINUTES_run = Fin (of_nat 6 / 2)"
    by (simp add: STEP_MINUTES_run_def Num_3)
  show ?thesis
    unfolding scan_line_def Let_def
    using weaker flag header field step [OF _ uses] step [OF _ run]
    by (auto split: option.splits)
qed

lemma scan_lines_exact:
  assumes "scan_exact st n" and "n + length ls \<le> 2 ^ 40"
  shows "scan_exact (scan_lines st ls) (n + length ls)"
  using assms
proof (induction ls arbitrary: st n)
  case Nil
  then show ?case by (simp add: scan_lines_def)
next
  case (Cons l ls)
  have "scan_exact (scan_line st l) (Suc n)" using Cons.prems by (intro scan_line_exact) simp_all
  then have "scan_exact (scan_lines (scan_line st l) ls) (Suc n + length ls)"
    using Cons.prems(2) by (intro Cons.IH) simp_all
  then show ?case by (simp add: scan_lines_Cons)
qed

lemma length_split_acc: "length (split_acc cur s) \<le> Suc (length s)"
proof (induction s arbitrary: cur)
  case Nil
  then show ?case by simp
next
  case (Cons c s)
  have "length (split_acc cur' s) \<le> Suc (Suc (length s))" for cur'
    using Cons [of cur'] by simp
  then show ?case using Cons by (auto split: list.splits)
qed

lemma length_split_lines: "length (split_lines s) \<le> Suc (length s)"
  by (simp add: split_lines_def length_split_acc)

lemma parse_exact:
  assumes "length w \<le> 100000"
  shows "list_all exact_job (parseJobsAndSteps w)
         \<and> minutes_sum (parseJobsAndSteps w) \<le> 300003"
proof -
  let ?ls = "split_lines w"
  have len: "length ?ls \<le> 100001" using length_split_lines [of w] assms by simp
  have "scan_exact scan_init 0"
    by (simp add: scan_exact_def scan_init_def push_current_def minutes_sum_def)
  then have "scan_exact (scan_lines scan_init ?ls) (0 + length ?ls)"
    using len by (intro scan_lines_exact) simp_all
  then have e: "list_all exact_job (push_current (scan_lines scan_init ?ls))"
      "minutes_sum (push_current (scan_lines scan_init ?ls)) \<le> 3 * of_nat (length ?ls)"
    by (simp_all add: scan_exact_def)
  have "(of_nat (length ?ls) :: rat) \<le> of_nat 100001" using len by (simp only: of_nat_le_iff)
  then have "minutes_sum (push_current (scan_lines scan_init ?ls)) \<le> 300003" using e(2) by simp
  moreover have "exact_job fallback_job"
    using Num_17_2 by (auto simp: exact_job_def fallback_job_def intro!: exI [of _ 17])
  moreover have "minutes_sum [fallback_job] \<le> 300003"
    by (simp add: minutes_sum_single fallback_job_def Num_17_2)
  ultimately show ?thesis using e(1) by (simp add: parseJobsAndSteps_def Let_def)
qed

lemma rnd_le_exact:
  assumes "0 \<le> q" and "q \<le> b" and "b = of_int m * 2 powi e" and "\<bar>m\<bar> < 2 ^ 53"
    and "- 1074 \<le> e" and "b \<le> 2 powi k" and "- 1022 \<le> k" and "k \<le> 1023"
  shows "\<exists>y. rnd q = Fin y \<and> 0 \<le> y \<and> y \<le> b"
proof -
  have "\<bar>q\<bar> \<le> 2 powi k" using assms(1,2,6) by simp
  then have "rnd q = Fin (round_to_ulp q)" using assms(7,8) by (rule rnd_Fin)
  moreover have "0 \<le> round_to_ulp q" using assms(1) by (rule round_to_ulp_nonneg)
  moreover have "round_to_ulp q \<le> round_to_ulp b" using assms(1,2) by (rule round_to_ulp_mono)
  moreover have "round_to_ulp b = b" using assms(3-5) by (rule round_to_ulp_exact)
  ultimately show ?thesis by simp
qed

text \<open>Rounding keeps a number below a multiple of 1/16 that is above it.\<close>

lemma rnd_le_sixteenth:
  assumes "0 \<le> q" and "q \<le> of_nat h / 16" and "h \<le> 2 ^ 30"
  shows "\<exists>y. rnd q = Fin y \<and> 0 \<le> y \<and> y \<le> of_nat h / 16"
proof -
  have "(of_nat h :: rat) \<le> of_nat (2 ^ 30)" using assms(3) by (simp only: of_nat_le_iff)
  then have 1: "(of_nat h :: rat) / 16 \<le> 2 powi 26" by simp
  have 2: "(of_nat h :: rat) / 16 = of_int (int h) * 2 powi (- 4)"
    by (simp add: power_int_minus)
  have 3: "\<bar>int h\<bar> < 2 ^ 53" using assms(3) by simp
  show ?thesis by (rule rnd_le_exact [OF assms(1,2) 2 3 _ 1]) simp_all
qed

lemma rate_of_le: "\<exists>r. rate_of name = Fin r \<and> 0 \<le> r \<and> r \<le> 1 / 8"
proof -
  have r: "\<exists>y. rnd q = Fin y \<and> 0 \<le> y \<and> y \<le> 1 / 8" if "0 \<le> q" "q \<le> 1 / 8" for q
    using rnd_le_sixteenth [of q 2] that by simp
  have "rate_of name = rnd (8 / 1000) \<or> rate_of name = rnd (16 / 1000)
      \<or> rate_of name = rnd (8 / 100)"
    by (simp add: rate_of_def OS_RATE_PER_MINUTE_USD_def Num_def)
  then show ?thesis using r [of "8 / 1000"] r [of "16 / 1000"] r [of "8 / 100"] by auto
qed

lemma entry_ok_mono: "entry_ok M v \<Longrightarrow> M \<le> M' \<Longrightarrow> entry_ok M' v"
  unfolding entry_ok_def by (meson order_trans)

lemma entry_ok_fresh:
  "0 \<le> M \<Longrightarrow> entry_ok M \<lparr>e_os = name, e_jobs = 0, e_stepCount = 0,
      e_minutesPerRun = Num 0, e_costPerRunUsd = Num 0\<rparr>"
  unfolding entry_ok_def by (intro exI [of _ 0]) (simp add: Num_0)

text \<open>One job of \<open>k\<close> half minutes added to an entry.\<close>

lemma entry_ok_add:
  assumes "entry_ok M v" and "mins = Fin (of_nat k / 2)" and "M + of_nat k / 2 \<le> 2 ^ 20"
  shows "entry_ok (M + of_nat k / 2)
     (v\<lparr>e_jobs := n, e_stepCount := s,
        e_minutesPerRun := fadd (e_minutesPerRun v) mins,
        e_costPerRunUsd := fadd (e_costPerRunUsd v) (fmul mins (rate_of name))\<rparr>)"
proof -
  from assms(1) obtain a and h :: nat where v: "e_costPerRunUsd v = Fin a"
      "e_minutesPerRun v = Fin (of_nat h / 2)" "0 \<le> a" "8 * a \<le> of_nat h / 2"
      "of_nat h / 2 \<le> M"
    by (auto simp: entry_ok_def)
  obtain r where r: "rate_of name = Fin r" "0 \<le> r" "r \<le> 1 / 8"
    using rate_of_le [of name] by blast
  define H where "H = (of_nat h :: rat)"
  define K where "K = (of_nat k :: rat)"
  have HK: "0 \<le> H" "0 \<le> K" "H / 2 + K / 2 \<le> 1048576" "8 * a \<le> H / 2"
    using assms(3) v(4,5) by (simp_all add: H_def K_def)
  have "H + K \<le> 2097152" using HK by linarith
  then have "(of_nat (h + k) :: rat) \<le> of_nat 2097152" by (simp add: H_def K_def)
  then have hk: "h + k \<le> 2097152" by (simp only: of_nat_le_iff)
  have mins_sum: "fadd (e_minutesPerRun v) mins = Fin (of_nat (h + k) / 2)"
    using hk by (simp only: v(2) assms(2)) (intro fadd_half_nat, simp)
  have "K / 2 * r \<le> K / 2 * (1 / 8)" using HK(2) r(3) by (intro mult_left_mono) simp_all
  then have "K / 2 * r \<le> of_nat k / 16" by (simp add: K_def)
  moreover have "0 \<le> K / 2 * r" using HK(2) r(2) by simp
  ultimately obtain p where p: "rnd (K / 2 * r) = Fin p" "0 \<le> p" "p \<le> of_nat k / 16"
    using rnd_le_sixteenth [of "K / 2 * r" k] hk by auto
  have "a + p \<le> of_nat (h + k) / 16" using HK(4) p(3) by (simp add: H_def K_def)
  moreover have "0 \<le> a + p" using v(3) p(2) by simp
  ultimately obtain a' where a': "rnd (a + p) = Fin a'" "0 \<le> a'" "a' \<le> of_nat (h + k) / 16"
    using rnd_le_sixteenth [of "a + p" "h + k"] hk by auto
  have cost: "fadd (e_costPerRunUsd v) (fmul mins (rate_of name)) = Fin a'"
    using p(1) a'(1) by (simp add: v(1) assms(2) r(1) K_def)
  have "8 * a' \<le> of_nat (h + k) / 2" using a'(3) by simp
  moreover have "(of_nat (h + k) :: rat) / 2 \<le> M + of_nat k / 2"
    using v(5) by (simp add: add_divide_distrib)
  ultimately show ?thesis
    unfolding entry_ok_def using mins_sum cost a'(2)
    by (intro exI [of _ a'] exI [of _ "h + k"]) simp
qed

lemma map_of_list_all:
  "list_all (P \<circ> snd) m \<Longrightarrow> map_of m k = Some v \<Longrightarrow> P v"
  by (induction m) (auto split: if_splits)

lemma add_job_ok:
  assumes "list_all (entry_ok M \<circ> snd) m" and "minutes j = Fin (of_nat k / 2)"
    and "0 \<le> M" and "M + of_nat k / 2 \<le> 2 ^ 20"
  shows "list_all (entry_ok (M + of_nat k / 2) \<circ> snd) (add_job m j)"
proof -
  let ?M' = "M + of_nat k / 2"
  have le: "M \<le> ?M'" by simp
  have others: "list_all (entry_ok ?M' \<circ> snd) m"
    using assms(1) entry_ok_mono [OF _ le] by (simp add: list_all_iff)
  have existing: "entry_ok M (case map_of m (os j) of
        Some entry \<Rightarrow> entry
      | None \<Rightarrow> \<lparr>e_os = os j, e_jobs = 0, e_stepCount = 0,
                 e_minutesPerRun = Num 0, e_costPerRunUsd = Num 0\<rparr>)"
    using map_of_list_all [OF assms(1)] entry_ok_fresh [OF assms(3)]
    by (auto split: option.splits)
  show ?thesis
    unfolding add_job_def Let_def
    using others entry_ok_add [OF existing assms(2,4)]
    by (intro map_set_list_all) simp_all
qed

lemma foldl_add_job_ok:
  assumes "list_all (entry_ok M \<circ> snd) m" and "list_all exact_job js"
    and "0 \<le> M" and "M + minutes_sum js \<le> 2 ^ 20"
  shows "list_all (entry_ok (M + minutes_sum js) \<circ> snd) (foldl add_job m js)"
  using assms
proof (induction js arbitrary: m M)
  case Nil
  then show ?case by (simp add: minutes_sum_def)
next
  case (Cons j js)
  from Cons.prems(2) obtain k :: nat where k: "minutes j = Fin (of_nat k / 2)"
    by (auto simp: exact_job_def)
  have js: "list_all exact_job js" using Cons.prems(2) by simp
  have sum: "minutes_sum (j # js) = of_nat k / 2 + minutes_sum js"
    by (simp add: minutes_sum_def k)
  have rest: "0 \<le> minutes_sum js" using js by (rule minutes_sum_nonneg)
  have 1: "M + of_nat k / 2 \<le> 2 ^ 20" using Cons.prems(4) rest by (simp add: sum)
  have 2: "list_all (entry_ok (M + of_nat k / 2) \<circ> snd) (add_job m j)"
    using Cons.prems(1) k Cons.prems(3) 1 by (rule add_job_ok)
  have 3: "0 \<le> M + of_nat k / 2" using Cons.prems(3) by simp
  have 4: "M + of_nat k / 2 + minutes_sum js \<le> 2 ^ 20" using Cons.prems(4) by (simp add: sum)
  show ?case using Cons.IH [OF 2 js 3 4] by (simp add: sum add.assoc)
qed

lemma emit_cents:
  assumes "entry_ok M v" and "M \<le> 2 ^ 20"
  shows "\<exists>c. cents_of (emit_entry v) c"
proof -
  from assms(1) obtain a and h :: nat where v: "e_costPerRunUsd v = Fin a" "0 \<le> a"
      "8 * a \<le> of_nat h / 2" "of_nat h / 2 \<le> M"
    by (auto simp: entry_ok_def)
  have a: "a \<le> 131072" using v(3,4) assms(2) by simp
  then have "a \<le> 2 powi 17" by simp
  then obtain c :: int where c: "roundMoney (Fin a) = rnd (of_int c / 100)"
      "\<bar>of_int c - 100 * a\<bar> \<le> 1 / 2 + 2 powi (17 - 43)" "0 \<le> c"
    using roundMoney_some_cents [of a 17] v(2) by auto
  have "(2::rat) powi (17 - 43) = 1 / 67108864" by (simp add: power_int_minus)
  then have "\<bar>of_int c - 100 * a\<bar> \<le> 1 / 2 + 1 / 67108864" using c(2) by (simp only:)
  then have "(of_int c :: rat) < 13107201" using a by linarith
  then have "(of_int c :: rat) < of_int 13107201" by simp
  then have "c < 13107201" by (simp only: of_int_less_iff)
  then show ?thesis
    using c(1,3) by (intro exI [of _ c]) (simp add: cents_of_def emit_entry_def v(1))
qed

lemma list_all_ex_list_all2:
  "list_all (\<lambda>x. \<exists>y. Q x y) xs \<Longrightarrow> \<exists>ys. list_all2 Q xs ys"
proof (induction xs)
  case Nil
  then show ?case by simp
next
  case (Cons x xs)
  then obtain y ys where "Q x y" "list_all2 Q xs ys" by auto
  then have "list_all2 Q (x # xs) (y # ys)" by simp
  then show ?case by blast
qed

lemma aggregate_cents:
  assumes "length w \<le> 100000"
  shows "\<exists>cs. list_all2 cents_of (aggregateByOs (parseJobsAndSteps w)) cs"
proof -
  let ?js = "parseJobsAndSteps w"
  have js: "list_all exact_job ?js" "minutes_sum ?js \<le> 300003"
    using parse_exact [OF assms] by simp_all
  have "list_all (entry_ok (0 + minutes_sum ?js) \<circ> snd) (foldl add_job [] ?js)"
    using js by (intro foldl_add_job_ok) simp_all
  then have "list_all (\<lambda>e. \<exists>c. cents_of e c) (aggregateByOs ?js)"
    using js(2) emit_cents [of "minutes_sum ?js"]
    by (simp add: aggregateByOs_def list_all_iff)
  then show ?thesis by (rule list_all_ex_list_all2)
qed

lemma aggregate_length: "length (aggregateByOs (parseJobsAndSteps w)) \<le> 3"
proof -
  let ?es = "aggregateByOs (parseJobsAndSteps w)"
  have "list_all (\<lambda>j. known_os (os j)) (parseJobsAndSteps w)"
    using parseJobsAndSteps_known [of w] by simp
  then have "os ` set (parseJobsAndSteps w) \<subseteq> {''linux'', ''windows'', ''macos''}"
    by (auto simp: list_all_iff known_os_def)
  then have "set (map e_os ?es) \<subseteq> {''linux'', ''windows'', ''macos''}"
    using aggregate_os_set [of "parseJobsAndSteps w"] by simp
  then have "card (set (map e_os ?es)) \<le> card {''linux'', ''windows'', ''macos''}"
    by (intro card_mono) simp_all
  moreover have "card (set (map e_os ?es)) = length (map e_os ?es)"
    using aggregate_distinct [of "parseJobsAndSteps w"] by (rule distinct_card)
  ultimately show ?thesis by simp
qed

lemma cents_sum_bounds:
  assumes "list_all2 cents_of es cs"
  shows "0 \<le> sum_list cs \<and> sum_list cs \<le> 13107200 * int (length cs)"
  using assms by (induction rule: list_all2_induct) (auto simp: cents_of_def)

lemma cents_values:
  assumes "list_all2 cents_of es cs"
  shows "list_all (isFinite \<circ> e_costPerRunUsd) es
         \<and> \<bar>sum_list (map (val \<circ> e_costPerRunUsd) es) - of_int (sum_list cs) / 100\<bar>
             \<le> of_nat (length es) * (1 / 68719476736)"
  using assms
proof (induction rule: list_all2_induct)
  case Nil
  then show ?case by simp
next
  case (Cons e es c cs)
  define C where "C = (of_int c :: rat)"
  have c: "e_costPerRunUsd e = rnd (C / 100)" "0 \<le> C" "C \<le> 13107200"
    using Cons.hyps(1) by (simp_all add: cents_of_def C_def)
  have "\<bar>C / 100\<bar> \<le> 2 powi 17" using c(2,3) by simp
  then obtain v where v: "rnd (C / 100) = Fin v" "\<bar>v - C / 100\<bar> \<le> 2 powi (17 - 53)"
    using rnd_approx [of "C / 100" 17] by auto
  have "(2::rat) powi (17 - 53) = 1 / 68719476736" by (simp add: power_int_minus)
  then have v_err: "\<bar>v - C / 100\<bar> \<le> 1 / 68719476736" using v(2) by (simp only:)
  define s where "s = sum_list (map (val \<circ> e_costPerRunUsd) es)"
  define S where "S = (of_int (sum_list cs) :: rat)"
  define L where "L = (of_nat (length es) :: rat)"
  have IH: "\<bar>s - S / 100\<bar> \<le> L * (1 / 68719476736)"
    unfolding s_def S_def L_def using Cons.IH by (rule conjunct2)
  have fin: "list_all (isFinite \<circ> e_costPerRunUsd) es"
    using Cons.IH by (rule conjunct1)
  define z where "z = (v + s) - (C + S) / 100"
  define z1 where "z1 = v - C / 100"
  define z2 where "z2 = s - S / 100"
  have "z = z1 + z2" by (simp add: z_def z1_def z2_def field_simps)
  moreover have "\<bar>z1\<bar> \<le> 1 / 68719476736" "\<bar>z2\<bar> \<le> L * (1 / 68719476736)"
    using v_err IH by (simp_all only: z1_def z2_def)
  ultimately have "\<bar>z\<bar> \<le> L * (1 / 68719476736) + 1 / 68719476736" by linarith
  then have "\<bar>(v + s) - (C + S) / 100\<bar> \<le> (L + 1) * (1 / 68719476736)"
    by (simp add: z_def algebra_simps)
  moreover have "sum_list (map (val \<circ> e_costPerRunUsd) (e # es)) = v + s"
    by (simp add: c(1) v(1) s_def)
  moreover have "(of_int (sum_list (c # cs)) :: rat) = C + S" by (simp add: C_def S_def)
  moreover have "(of_nat (length (e # es)) :: rat) = L + 1" by (simp add: L_def)
  moreover have "list_all (isFinite \<circ> e_costPerRunUsd) (e # es)"
    using fin by (simp add: c(1) v(1))
  ultimately show ?case by (simp only:)
qed

text \<open>The total cost of a run, before and after it is rounded for the summary.\<close>

lemma total_cost:
  assumes "length (workflowYaml input) \<le> 100000"
  obtains cs x y where
    "list_all2 cents_of (byOs (estimateWorkflowCost input)) cs"
    "costPerRunUsd (sum_entries (byOs (estimateWorkflowCost input))) = Fin x"
    "\<bar>x - of_int (sum_list cs) / 100\<bar> \<le> 1 / 2 ^ 32" "0 \<le> x" "x \<le> 2 ^ 19"
    "s_costPerRunUsd (summary (estimateWorkflowCost input)) = Fin y"
    "\<bar>y - of_int (sum_list cs) / 100\<bar> \<le> 1 / 2 ^ 34" "0 \<le> y" "y \<le> 2 ^ 19"
proof -
  let ?es = "byOs (estimateWorkflowCost input)"
  have es: "?es = aggregateByOs (parseJobsAndSteps (workflowYaml input))"
    by (simp add: estimateWorkflowCost_def Let_def)
  obtain cs where cs: "list_all2 cents_of ?es cs"
    using aggregate_cents [OF assms] by (auto simp: es)
  have len: "length cs \<le> 3"
    using aggregate_length [of "workflowYaml input"] list_all2_lengthD [OF cs] by (simp add: es)
  obtain x where x: "costPerRunUsd (sum_entries ?es) = Fin x"
      "\<bar>x - of_int (sum_list cs) / 100\<bar> \<le> 1 / 2 ^ 32" "0 \<le> x" "x \<le> 2 ^ 19"
    using cost_sum [OF cs len] by blast
  define S where "S = (of_int (sum_list cs) :: rat)"
  have "0 \<le> sum_list cs" "sum_list cs \<le> 13107200 * int (length cs)"
    using cents_sum_bounds [OF cs] by simp_all
  then have "0 \<le> sum_list cs" "sum_list cs \<le> 39321600" using len by simp_all
  then have "(of_int 0 :: rat) \<le> of_int (sum_list cs)"
      "(of_int (sum_list cs) :: rat) \<le> of_int 39321600"
    by (simp_all only: of_int_le_iff)
  then have S: "0 \<le> S" "S \<le> 39321600" by (simp_all add: S_def)
  have x_err: "\<bar>x - S / 100\<bar> \<le> 1 / 4294967296" using x(2) by (simp add: S_def)
  have p24: "(2::rat) powi (19 - 43) = 1 / 16777216" by (simp add: power_int_minus)
  have "\<bar>100 * x - S\<bar> < 1 / 2 - 1 / 16777216" using x_err by linarith
  then have "\<bar>100 * x - of_int (sum_list cs)\<bar> < 1 / 2 - 2 powi (19 - 43)"
    by (simp only: p24 S_def)
  then have r: "roundMoney (Fin x) = rnd (S / 100)"
    unfolding S_def using x(3,4) by (intro roundMoney_cents [of x 19]) simp_all
  have "\<bar>S / 100\<bar> \<le> 2 powi 19" using S by simp
  then obtain y where y: "rnd (S / 100) = Fin y" "\<bar>y - S / 100\<bar> \<le> 2 powi (19 - 53)"
      "\<bar>y\<bar> \<le> 2 powi 19" "0 \<le> y"
    using rnd_approx [of "S / 100" 19] S(1) by auto
  have "(2::rat) powi (19 - 53) = 1 / 2 ^ 34" by (simp add: power_int_minus)
  then have y_err: "\<bar>y - of_int (sum_list cs) / 100\<bar> \<le> 1 / 2 ^ 34"
    using y(2) by (simp only: S_def)
  have "s_costPerRunUsd (summary (estimateWorkflowCost input)) = Fin y"
    using r y(1) x(1) by (simp add: estimateWorkflowCost_def Let_def)
  moreover have "y \<le> 2 ^ 19" using y(3) by simp
  ultimately show ?thesis using that cs x y(4) y_err by blast
qed

text \<open>
  C2. For every input of the data model (a workflow text of at most 100,000 characters, a
  whole number of runs from 0 to 1,000,000: the sanitizer returns no other input, see
  \<open>sanitized_input_bounds\<close>), the monthly cost of the summary is a finite number, and it is
  the rounding to cents of the product of the cost of a run that the summary carries
  (itself rounded to cents) and the number of runs, in binary64 arithmetic.
\<close>

theorem monthly_cost_of_summary:
  assumes "length (workflowYaml input) \<le> 100000"
    and "monthlyRuns input = Fin (of_int n)" and "0 \<le> n" and "n \<le> 1000000"
  shows "isFinite (s_monthlyCostUsd (summary (estimateWorkflowCost input)))
         \<and> s_monthlyCostUsd (summary (estimateWorkflowCost input))
             = roundMoney (fmul (s_costPerRunUsd (summary (estimateWorkflowCost input)))
                                (s_monthlyRuns (summary (estimateWorkflowCost input))))"
proof -
  obtain cs x y where t:
      "list_all2 cents_of (byOs (estimateWorkflowCost input)) cs"
      "costPerRunUsd (sum_entries (byOs (estimateWorkflowCost input))) = Fin x"
      "\<bar>x - of_int (sum_list cs) / 100\<bar> \<le> 1 / 2 ^ 32" "0 \<le> x" "x \<le> 2 ^ 19"
      "s_costPerRunUsd (summary (estimateWorkflowCost input)) = Fin y"
      "\<bar>y - of_int (sum_list cs) / 100\<bar> \<le> 1 / 2 ^ 34" "0 \<le> y" "y \<le> 2 ^ 19"
    using total_cost [OF assms(1)] by blast
  let ?m = "rnd (of_int (sum_list cs * n) / 100)"
  have "s_monthlyCostUsd (summary (estimateWorkflowCost input))
      = roundMoney (fmul (Fin x) (Fin (of_int n)))"
    using t(2) by (simp add: estimateWorkflowCost_def Let_def assms(2))
  also have "\<dots> = ?m" using t(3-5) assms(3,4) by (rule monthly_cost)
  finally have lhs: "s_monthlyCostUsd (summary (estimateWorkflowCost input)) = ?m" .
  have "\<bar>y - of_int (sum_list cs) / 100\<bar> \<le> 1 / 2 ^ 32" using t(7) by simp
  then have "roundMoney (fmul (Fin y) (Fin (of_int n))) = ?m"
    using t(8,9) assms(3,4) by (rule monthly_cost)
  moreover have "s_monthlyRuns (summary (estimateWorkflowCost input)) = Fin (of_int n)"
    by (simp add: estimateWorkflowCost_def Let_def assms(2))
  ultimately have rhs: "roundMoney (fmul (s_costPerRunUsd (summary (estimateWorkflowCost input)))
      (s_monthlyRuns (summary (estimateWorkflowCost input)))) = ?m"
    by (simp only: t(6))
  have "0 \<le> sum_list cs" "sum_list cs \<le> 13107200 * int (length cs)"
    using cents_sum_bounds [OF t(1)] by simp_all
  moreover have "length cs \<le> 3"
    using aggregate_length [of "workflowYaml input"] list_all2_lengthD [OF t(1)]
    by (simp add: estimateWorkflowCost_def Let_def)
  ultimately have S: "0 \<le> sum_list cs" "sum_list cs \<le> 39321600" by simp_all
  have "0 \<le> sum_list cs * n" using S(1) assms(3) by simp
  moreover have "sum_list cs * n \<le> 39321600 * 1000000"
    using S assms(3,4) by (intro mult_mono) simp_all
  ultimately have "(of_int 0 :: rat) \<le> of_int (sum_list cs * n)"
      "(of_int (sum_list cs * n) :: rat) \<le> of_int (39321600 * 1000000)"
    by (simp_all only: of_int_le_iff)
  then have "\<bar>(of_int (sum_list cs * n) :: rat) / 100\<bar> \<le> 2 powi 39" by simp
  then have "isFinite ?m"
    using rnd_approx [of "of_int (sum_list cs * n) / 100" 39] by auto
  then show ?thesis using lhs rhs by simp
qed

theorem monthly_cost_of_summary_witness:
  "length ''name: CI'' \<le> 100000
   \<and> s_monthlyCostUsd (summary (estimateWorkflowCost
        \<lparr>workflowYaml = ''name: CI'', monthlyRuns = Fin 500, budgetUsd = Fin 40,
         policyMode = ''block''\<rparr>))
      = roundMoney (fmul
          (s_costPerRunUsd (summary (estimateWorkflowCost
            \<lparr>workflowYaml = ''name: CI'', monthlyRuns = Fin 500, budgetUsd = Fin 40,
             policyMode = ''block''\<rparr>)))
          (s_monthlyRuns (summary (estimateWorkflowCost
            \<lparr>workflowYaml = ''name: CI'', monthlyRuns = Fin 500, budgetUsd = Fin 40,
             policyMode = ''block''\<rparr>))))"
  using monthly_cost_of_summary [of "\<lparr>workflowYaml = ''name: CI'', monthlyRuns = Fin 500,
    budgetUsd = Fin 40, policyMode = ''block''\<rparr>" 500]
  by simp

lemma byOs_nonempty: "byOs (estimateWorkflowCost input) \<noteq> []"
proof -
  let ?js = "parseJobsAndSteps (workflowYaml input)"
  have "?js \<noteq> []" using parseJobsAndSteps_known [of "workflowYaml input"] by simp
  then have "e_os ` set (aggregateByOs ?js) \<noteq> {}" by (simp add: aggregate_os_set)
  then have "aggregateByOs ?js \<noteq> []" by auto
  then show ?thesis by (simp add: estimateWorkflowCost_def Let_def)
qed

text \<open>
  C8. For every input whose workflow text has at most 100,000 characters (the bound of
  the data model, which the sanitizer enforces), the costs of the entries of \<open>byOs\<close> and
  the cost of a run of the summary are finite numbers, and the sum of the former differs
  from the latter by at most 0.01 times the number of entries. This holds for the exact sum
  of the entries' costs and for their sum in binary64 arithmetic, which is the total that
  the estimator itself accumulates.
\<close>

theorem per_os_costs_sum:
  assumes "length (workflowYaml input) \<le> 100000"
  shows "list_all (isFinite \<circ> e_costPerRunUsd) (byOs (estimateWorkflowCost input))
         \<and> isFinite (s_costPerRunUsd (summary (estimateWorkflowCost input)))
         \<and> \<bar>sum_list (map (val \<circ> e_costPerRunUsd) (byOs (estimateWorkflowCost input)))
              - val (s_costPerRunUsd (summary (estimateWorkflowCost input)))\<bar>
             \<le> 1 / 100 * of_nat (length (byOs (estimateWorkflowCost input)))
         \<and> isFinite (costPerRunUsd (sum_entries (byOs (estimateWorkflowCost input))))
         \<and> \<bar>val (costPerRunUsd (sum_entries (byOs (estimateWorkflowCost input))))
              - val (s_costPerRunUsd (summary (estimateWorkflowCost input)))\<bar>
             \<le> 1 / 100 * of_nat (length (byOs (estimateWorkflowCost input)))"
proof -
  let ?es = "byOs (estimateWorkflowCost input)"
  obtain cs x y where t:
      "list_all2 cents_of ?es cs"
      "costPerRunUsd (sum_entries ?es) = Fin x"
      "\<bar>x - of_int (sum_list cs) / 100\<bar> \<le> 1 / 2 ^ 32"
      "s_costPerRunUsd (summary (estimateWorkflowCost input)) = Fin y"
      "\<bar>y - of_int (sum_list cs) / 100\<bar> \<le> 1 / 2 ^ 34"
    using total_cost [OF assms(1)] by blast
  define L where "L = (of_nat (length ?es) :: rat)"
  define s where "s = sum_list (map (val \<circ> e_costPerRunUsd) ?es)"
  define S where "S = (of_int (sum_list cs) :: rat)"
  have v: "list_all (isFinite \<circ> e_costPerRunUsd) ?es"
      "\<bar>s - S / 100\<bar> \<le> L * (1 / 68719476736)"
    using cents_values [OF t(1)] by (simp_all only: L_def s_def S_def)
  have "?es \<noteq> []" using byOs_nonempty [of input] .
  then have "1 \<le> length ?es" by (cases ?es) simp_all
  then have "(of_nat 1 :: rat) \<le> of_nat (length ?es)" by (simp only: of_nat_le_iff)
  then have L: "1 \<le> L" by (simp add: L_def)
  have x: "\<bar>x - S / 100\<bar> \<le> 1 / 4294967296" using t(3) by (simp add: S_def)
  have y: "\<bar>y - S / 100\<bar> \<le> 1 / 17179869184" using t(5) by (simp add: S_def)
  define z where "z = s - y"
  define z' where "z' = x - y"
  define z1 where "z1 = s - S / 100"
  define z2 where "z2 = y - S / 100"
  define z3 where "z3 = x - S / 100"
  have "z = z1 - z2" "z' = z3 - z2" by (simp_all add: z_def z'_def z1_def z2_def z3_def)
  moreover have "\<bar>z1\<bar> \<le> L * (1 / 68719476736)" "\<bar>z2\<bar> \<le> 1 / 17179869184"
      "\<bar>z3\<bar> \<le> 1 / 4294967296"
    using v(2) x y by (simp_all only: z1_def z2_def z3_def)
  ultimately have "\<bar>z\<bar> \<le> 1 / 100 * L" "\<bar>z'\<bar> \<le> 1 / 100 * L" using L by linarith+
  then show ?thesis using v(1) by (simp add: t(2,4) z_def z'_def s_def L_def)
qed

theorem per_os_costs_sum_witness:
  "length ''name: CI'' \<le> 100000
   \<and> \<bar>sum_list (map (val \<circ> e_costPerRunUsd) (byOs (estimateWorkflowCost
         \<lparr>workflowYaml = ''name: CI'', monthlyRuns = Fin 500, budgetUsd = Fin 40,
          policyMode = ''block''\<rparr>)))
       - val (s_costPerRunUsd (summary (estimateWorkflowCost
         \<lparr>workflowYaml = ''name: CI'', monthlyRuns = Fin 500, budgetUsd = Fin 40,
          policyMode = ''block''\<rparr>)))\<bar>
      \<le> 1 / 100 * of_nat (length (byOs (estimateWorkflowCost
         \<lparr>workflowYaml = ''name: CI'', monthlyRuns = Fin 500, budgetUsd = Fin 40,
          policyMode = ''block''\<rparr>)))"
  using per_os_costs_sum [of "\<lparr>workflowYaml = ''name: CI'', monthlyRuns = Fin 500,
    budgetUsd = Fin 40, policyMode = ''block''\<rparr>"]
  by simp

end
